theory Spec2Isabelle
  imports Main "HOL-Library.Word"
begin

section \<open>Stage tasks driven by their environment\<close>

text \<open>
  Every stage of the pipeline package owns one goroutine that alternates between local
  computation and a blocking communication. The model of a stage is the function that
  maps what the environment offers at these blocking points to what the task emits.

  A \<open>select_case\<close> is what the environment offers while a task is blocked:
  \<open>Comm\<close> when the peer of the channel operation is ready (the send or the receive
  completes), \<open>CtxDone\<close> when the \<open>Done\<close> channel of the cancellation token is readable
  and the channel operation does not complete. A schedule is the list of these offers, in
  the order in which the task meets them. A schedule without \<open>CtxDone\<close> is a run without
  cancellation in which the consumer keeps receiving.

  A task ends a finite schedule either \<open>Returned\<close> (its function returned and the deferred
  \<open>close\<close> of its output ran) or \<open>Waiting\<close> (still blocked in a channel operation).
\<close>

datatype select_case = CtxDone | Comm

datatype task_end = Returned | Waiting

datatype panic = Panic string

subsection \<open>Generate (pipeline/source.go)\<close>

text \<open>
  \<^verbatim>\<open>
  for {
      v, ok := next(ctx)
      if !ok { return }
      select {
      case <-ctx.Done(): return
      case out <- v:
      }
  }
  \<close>
  The stepping function is a closure over mutable variables; the model passes the captured
  variables as a state \<open>'s\<close> and returns them updated. The result holds the values
  delivered, how the task ended and the final captured state.
\<close>

fun Generate :: "('s \<Rightarrow> ('v \<times> bool) \<times> 's) \<Rightarrow> 's \<Rightarrow> select_case list
    \<Rightarrow> 'v list \<times> task_end \<times> 's" where
  "Generate next s [] =
     (case next s of ((v, ok), s') \<Rightarrow>
        if \<not> ok then ([], Returned, s') else ([], Waiting, s'))"
| "Generate next s (c # cs) =
     (case next s of ((v, ok), s') \<Rightarrow>
        if \<not> ok then ([], Returned, s')
        else (case c of
                CtxDone \<Rightarrow> ([], Returned, s')
              | Comm \<Rightarrow> (case Generate next s' cs of (out, e, s'') \<Rightarrow> (v # out, e, s''))))"

subsection \<open>ToChan and Range (pipeline/source.go)\<close>

text \<open>
  \<open>ToChan\<close> captures the index \<open>i\<close>, which starts at 0 and is incremented on every call.
  \<open>zero\<close> is the zero value of the element type, returned with \<open>ok = false\<close>.
\<close>

definition ToChan_next :: "'v \<Rightarrow> 'v list \<Rightarrow> nat \<Rightarrow> ('v \<times> bool) \<times> nat" where
  "ToChan_next zero values i =
     (let ok = i < length values;
          v = (if ok then values ! i else zero)
      in ((v, ok), i + 1))"

definition ToChan :: "'v \<Rightarrow> 'v list \<Rightarrow> select_case list \<Rightarrow> 'v list \<times> task_end" where
  "ToChan zero values sched =
     (case Generate (ToChan_next zero values) 0 sched of (out, e, _) \<Rightarrow> (out, e))"

text \<open>
  \<open>Range\<close> is generic over \<open>Rangeable\<close>: the signed integer types \<open>int8\<close>, \<open>int16\<close>, \<open>int32\<close>,
  \<open>int64\<close> and \<open>int\<close>, and the floating-point types \<open>float32\<close> and \<open>float64\<close>. The
  definitions below are its instances at the signed integer types: an element is a word
  of the type's width, compared as a signed value, and \<open>from += step\<close> wraps around as
  Go's signed addition does. The instances at the floating-point types, where
  \<open>from += step\<close> rounds, are not modelled. The two stepping closures capture \<open>from\<close>,
  which is their state.
\<close>

definition Range_asc_next :: "'a::len word \<Rightarrow> 'a word \<Rightarrow> 'a word \<Rightarrow> ('a word \<times> bool) \<times> 'a word" where
  "Range_asc_next to step from = (let i = from; from' = from + step in ((i, i <s to), from'))"

definition Range_desc_next :: "'a::len word \<Rightarrow> 'a word \<Rightarrow> 'a word \<Rightarrow> ('a word \<times> bool) \<times> 'a word" where
  "Range_desc_next to step from = (let i = from; from' = from + step in ((i, to <s i), from'))"

text \<open>
  \<open>optStep\<close> is the variadic argument. The result is the panic, or what the returned
  channel delivers under the given schedule.
\<close>

definition Range :: "'a::len word \<Rightarrow> 'a word \<Rightarrow> 'a word list \<Rightarrow> select_case list
    \<Rightarrow> panic + ('a word list \<times> task_end)" where
  "Range from to optStep sched =
     (let step0 = (if to <s from then - 1 else 1);
          step = (if length optStep > 0 then optStep ! 0 else step0)
      in if from <s to then
           (if step \<le>s 0 then Inl (Panic ''step must be greater than 0'')
            else (case Generate (Range_asc_next to step) from sched of
                    (out, e, _) \<Rightarrow> Inr (out, e)))
         else if to <s from then
           (if 0 \<le>s step then Inl (Panic ''step must be less than 0'')
            else (case Generate (Range_desc_next to step) from sched of
                    (out, e, _) \<Rightarrow> Inr (out, e)))
         else Inr (ToChan 0 [from] sched))"

text \<open>
  The progression of the specification, over the integers: the values \<open>i\<close>, \<open>i + step\<close>,
  ... emitted while \<open>i < to\<close> (ascending) or \<open>i > to\<close> (descending).
\<close>

function asc_progression :: "int \<Rightarrow> int \<Rightarrow> int \<Rightarrow> int list" where
  "asc_progression i to step =
     (if 0 < step \<and> i < to then i # asc_progression (i + step) to step else [])"
  by pat_completeness auto
termination
  by (relation "measure (\<lambda>(i, to, step). nat (to - i))") auto

function desc_progression :: "int \<Rightarrow> int \<Rightarrow> int \<Rightarrow> int list" where
  "desc_progression i to step =
     (if step < 0 \<and> to < i then i # desc_progression (i + step) to step else [])"
  by pat_completeness auto
termination
  by (relation "measure (\<lambda>(i, to, step). nat (i - to))") auto

declare asc_progression.simps [simp del]
declare desc_progression.simps [simp del]

text \<open>
  A run of \<open>Range\<close> yields a sequence of integers when the channel delivers exactly the
  words with these signed values, in this order, and is then closed.
\<close>

definition yields :: "panic + ('a::len word list \<times> task_end) \<Rightarrow> int list \<Rightarrow> bool" where
  "yields r xs = (case r of Inl _ \<Rightarrow> False | Inr (ws, e) \<Rightarrow> e = Returned \<and> map sint ws = xs)"

section \<open>The pipeline stages (revision of src/unnamed/part_003)\<close>

text \<open>
  An input channel is modelled by what it holds: the finite list of items it delivers
  before it is closed. A receive from it never blocks; an empty list is the closed
  channel. The schedule resolves the \<open>select\<close> statements and the sends of a task.
\<close>

datatype error = Canceled | DeadlineExceeded | Failure string

text \<open>
  The cancellation token as a consumer observes it at one moment: whether its \<open>Done\<close>
  channel is closed (\<open>ctx_Done\<close>), and what \<open>Err()\<close> returns (\<open>ctx_Err\<close>).
\<close>

record ctx =
  ctx_Done :: bool
  ctx_Err :: "error option"

subsection \<open>Map and OrDone\<close>

text \<open>
  \<^verbatim>\<open>
  for {
      select {
      case <-ctx.Done(): return
      case v, ok := <-in:
          if !ok { return }
          select {
          case <-ctx.Done():
          case out <- fn(v):
          }
      }
  }
  \<close>
  The inner \<open>select\<close> drops the item when it observes the token and goes round the loop
  again; only the outer one returns. The result holds the items delivered, how the task
  ended, and the items the task has left in its input.
\<close>

fun Map_loop :: "('t \<Rightarrow> 'v) \<Rightarrow> 't list \<Rightarrow> select_case list
    \<Rightarrow> 'v list \<times> task_end \<times> 't list" where
  "Map_loop fn inp [] = ([], Waiting, inp)"
| "Map_loop fn inp (CtxDone # cs) = ([], Returned, inp)"
| "Map_loop fn [] (Comm # cs) = ([], Returned, [])"
| "Map_loop fn (v # vs) [Comm] = ([], Waiting, vs)"
| "Map_loop fn (v # vs) (Comm # CtxDone # cs) = Map_loop fn vs cs"
| "Map_loop fn (v # vs) (Comm # Comm # cs) =
     (case Map_loop fn vs cs of (out, e, rest) \<Rightarrow> (fn v # out, e, rest))"

text \<open>
  \<open>Map\<close> starts the task on its input and returns the output channel, here what that
  channel delivers; \<open>OrDone\<close> is \<open>Map\<close> with the identity.
\<close>

definition Map :: "('t \<Rightarrow> 'v) \<Rightarrow> 't list \<Rightarrow> select_case list \<Rightarrow> 'v list \<times> task_end \<times> 't list" where
  "Map mapFn inp sched = Map_loop mapFn inp sched"

definition OrDone :: "'t list \<Rightarrow> select_case list \<Rightarrow> 't list \<times> task_end \<times> 't list" where
  "OrDone inp sched = Map (\<lambda>t. t) inp sched"

subsection \<open>Limit\<close>

text \<open>
  \<^verbatim>\<open>
  for i := 0; i < n; i++ {
      v, ok := <-in
      if !ok { return }
      out <- v
  }
  \<close>
  The send is a plain statement, not a \<open>select\<close>: while the task is blocked in it, the only
  offer that lets it go on is the receiver's. \<open>Limit_send\<close> is the task blocked in
  \<open>out <- v\<close>.
\<close>

fun Limit_loop :: "int \<Rightarrow> int \<Rightarrow> 't list \<Rightarrow> select_case list \<Rightarrow> 't list \<times> task_end"
  and Limit_send :: "int \<Rightarrow> int \<Rightarrow> 't \<Rightarrow> 't list \<Rightarrow> select_case list \<Rightarrow> 't list \<times> task_end" where
  "Limit_loop n i inp sched =
     (if i < n then
        (case inp of [] \<Rightarrow> ([], Returned) | v # vs \<Rightarrow> Limit_send n i v vs sched)
      else ([], Returned))"
| "Limit_send n i v vs [] = ([], Waiting)"
| "Limit_send n i v vs (CtxDone # cs) = Limit_send n i v vs cs"
| "Limit_send n i v vs (Comm # cs) =
     (case Limit_loop n (i + 1) vs cs of (out, e) \<Rightarrow> (v # out, e))"

definition Limit :: "int \<Rightarrow> 't list \<Rightarrow> select_case list \<Rightarrow> 't list \<times> task_end" where
  "Limit n inp sched = Limit_loop n 0 inp sched"

subsection \<open>Accumulate and ErrorIfDone\<close>

definition ErrorIfDone :: "ctx \<Rightarrow> error option" where
  "ErrorIfDone ctx = (if ctx_Done ctx then ctx_Err ctx else None)"

text \<open>
  \<^verbatim>\<open>
  for v := range OrDone(ctx, input) {
      if out, err = fn(out, v); err != nil { return out, err }
  }
  \<close>
  The loop runs in the caller. It ranges over what the gate delivers; when the gate
  is still \<open>Waiting\<close> at the end of its deliveries the loop blocks in the receive and
  \<open>Accumulate\<close> does not return (\<open>None\<close>). The result of the loop is the accumulator,
  the error of the last step and the items it has not received.
\<close>

fun Accumulate_range :: "('a \<Rightarrow> 't \<Rightarrow> 'a \<times> error option) \<Rightarrow> 'a \<Rightarrow> 't list \<Rightarrow> task_end
    \<Rightarrow> ('a \<times> error option \<times> 't list) option" where
  "Accumulate_range fn out [] e = (if e = Returned then Some (out, None, []) else None)"
| "Accumulate_range fn out (v # vs) e =
     (case fn out v of
        (out', Some err) \<Rightarrow> Some (out', Some err, vs)
      | (out', None) \<Rightarrow> Accumulate_range fn out' vs e)"

definition Accumulate :: "ctx \<Rightarrow> select_case list \<Rightarrow> ('a \<Rightarrow> 't \<Rightarrow> 'a \<times> error option) \<Rightarrow> 'a \<Rightarrow> 't list
    \<Rightarrow> ('a \<times> error option) option" where
  "Accumulate ctx gate fn initVal inp =
     (case OrDone inp gate of (gated, e, _) \<Rightarrow>
        (case Accumulate_range fn initVal gated e of
           None \<Rightarrow> None
         | Some (out, Some err, _) \<Rightarrow> Some (out, Some err)
         | Some (out, None, _) \<Rightarrow> Some (out, ErrorIfDone ctx)))"

subsection \<open>Collector\<close>

text \<open>
  \<^verbatim>\<open>
  for {
      v, ok := fn(ctx, in)
      if !ok { return }
      select {
      case <-ctx.Done(): return
      case out <- v:
      }
  }
  \<close>
  The batching rule reads from the gated input; in the model it takes the items not yet
  read and returns them without the ones it has read.
\<close>

fun Collector_loop :: "('t list \<Rightarrow> ('v \<times> bool) \<times> 't list) \<Rightarrow> 't list \<Rightarrow> select_case list
    \<Rightarrow> 'v list \<times> task_end \<times> 't list" where
  "Collector_loop fn inp [] =
     (case fn inp of ((v, ok), inp') \<Rightarrow>
        if \<not> ok then ([], Returned, inp') else ([], Waiting, inp'))"
| "Collector_loop fn inp (c # cs) =
     (case fn inp of ((v, ok), inp') \<Rightarrow>
        if \<not> ok then ([], Returned, inp')
        else (case c of
                CtxDone \<Rightarrow> ([], Returned, inp')
              | Comm \<Rightarrow> (case Collector_loop fn inp' cs of
                          (out, e, inp'') \<Rightarrow> (v # out, e, inp''))))"

text \<open>
  \<open>Collector\<close> hands \<open>OrDone(ctx, input)\<close> to its task. A rule written against a list sees
  the end of the list as the closed channel, so the model covers the runs in which the
  gate has closed its output (\<open>None\<close> otherwise).
\<close>

definition Collector :: "('t list \<Rightarrow> ('v \<times> bool) \<times> 't list) \<Rightarrow> 't list \<Rightarrow> select_case list
    \<Rightarrow> select_case list \<Rightarrow> ('v list \<times> task_end) option" where
  "Collector collect inp gate sched =
     (case OrDone inp gate of
        (gated, Returned, _) \<Rightarrow>
          (case Collector_loop collect gated sched of (out, e, _) \<Rightarrow> Some (out, e))
      | (gated, Waiting, _) \<Rightarrow> None)"

text \<open>
  The fixed-size batching rule of the test suite (\<open>sliceCollector\<close> in
  pipeline\_test.go), with the constant \<open>sliceLen\<close> as the parameter \<open>k\<close>:
  \<^verbatim>\<open>
  r = make([]int, 0, sliceLen)
  for i := 0; i < sliceLen; i++ {
      v, ok := <-in
      if !ok { return r, len(r) > 0 }
      r = append(r, v)
  }
  return r, len(r) > 0
  \<close>
  The first argument of the loop is the number of rounds left.
\<close>

fun sliceCollector_loop :: "nat \<Rightarrow> 't list \<Rightarrow> 't list \<Rightarrow> ('t list \<times> bool) \<times> 't list" where
  "sliceCollector_loop 0 r inp = ((r, length r > 0), inp)"
| "sliceCollector_loop (Suc m) r [] = ((r, length r > 0), [])"
| "sliceCollector_loop (Suc m) r (v # vs) = sliceCollector_loop m (r @ [v]) vs"

definition sliceCollector :: "nat \<Rightarrow> 't list \<Rightarrow> ('t list \<times> bool) \<times> 't list" where
  "sliceCollector k inp = sliceCollector_loop k [] inp"

subsection \<open>Merge\<close>

text \<open>
  Channels have an identity. A channel is a number; the channels made so far are the
  numbers below the counter of the allocator, and \<open>make(chan T)\<close> returns the counter and
  increments it. A \<open>nil\<close> channel is \<open>None\<close>.
\<close>

type_synonym chan = nat

definition make_chan :: "nat \<Rightarrow> chan \<times> nat" where
  "make_chan h = (h, Suc h)"

text \<open>
  \<^verbatim>\<open>
  fanout := func(wg *sync.WaitGroup, in <-chan T, out chan<- T) {
      defer wg.Done()
      for v := range in { out <- v }
  }
  \<close>
  One relay task per input, all sending into the one output channel with a plain send
  (the relay is the same in both revisions of \<open>Merge\<close> below).
\<close>

fun fanout :: "'t list \<Rightarrow> select_case list \<Rightarrow> 't list \<times> task_end" where
  "fanout [] sched = ([], Returned)"
| "fanout (v # vs) [] = ([], Waiting)"
| "fanout (v # vs) (CtxDone # cs) = fanout (v # vs) cs"
| "fanout (v # vs) (Comm # cs) = (case fanout vs cs of (out, e) \<Rightarrow> (v # out, e))"

text \<open>
  What a call of \<open>Merge\<close> has started when it returns: the channels its relays read,
  the counter of the wait group, and whether the task that closes the output after
  \<open>wg.Wait()\<close> can run at once (the counter is 0). A call that starts no task has none
  of it (\<open>None\<close>).
\<close>

record merge_tasks =
  relay_inputs :: "chan list"
  wg_count :: nat
  closes_at_once :: bool

text \<open>
  The gates of the relays: \<open>OrDone(ctx, chans[i])\<close> is evaluated by the caller, one after
  the other, and each makes a channel of its own (\<open>Map\<close> does).
\<close>

fun OrDone_chans :: "chan list \<Rightarrow> nat \<Rightarrow> chan list \<times> nat" where
  "OrDone_chans [] h = ([], h)"
| "OrDone_chans (c # cs) h =
     (case make_chan h of (g, h') \<Rightarrow>
        (case OrDone_chans cs h' of (gs, h'') \<Rightarrow> (g # gs, h'')))"

text \<open>
  \<open>Merge(ctx, chans...)\<close> (the pipeline package as the tests use it, src/future\_test.go
  lines 252--284):
  \<^verbatim>\<open>
  switch len(chans) {
  case 0: return nil
  case 1: return chans[0]
  }
  c := make(chan T)
  wg := new(sync.WaitGroup)
  wg.Add(len(chans))
  ...
  for i := range chans { go fanout(wg, OrDone(ctx, chans[i]), c) }
  go func(wg *sync.WaitGroup, ch chan<- T) { defer close(ch); wg.Wait() }(wg, c)
  return c
  \<close>
  The result is the channel returned, what has been started, and the allocator.
\<close>

definition Merge :: "ctx \<Rightarrow> chan list \<Rightarrow> nat \<Rightarrow> (chan option \<times> merge_tasks option) \<times> nat" where
  "Merge ctx chans h =
     (case chans of
        [] \<Rightarrow> ((None, None), h)
      | [ch] \<Rightarrow> ((Some ch, None), h)
      | _ \<Rightarrow>
          (case make_chan h of (out, h') \<Rightarrow>
             (case OrDone_chans chans h' of (gates, h'') \<Rightarrow>
                ((Some out, Some \<lparr>relay_inputs = gates, wg_count = length chans,
                                    closes_at_once = (length chans = 0)\<rparr>), h''))))"

text \<open>
  The earlier revision of the same function (src/unnamed/part\_003 lines 628--653,
  \<open>Merge(chans...)\<close> without a token) has no \<open>switch\<close> and no gates: it makes the output
  channel, starts one relay per input and the closing task, and returns the channel.
\<close>

definition Merge_without_ctx :: "chan list \<Rightarrow> nat \<Rightarrow> (chan option \<times> merge_tasks option) \<times> nat" where
  "Merge_without_ctx chans h =
     (case make_chan h of (out, h') \<Rightarrow>
        ((Some out, Some \<lparr>relay_inputs = chans, wg_count = length chans,
                            closes_at_once = (length chans = 0)\<rparr>), h'))"

subsection \<open>Reference functions for the folding and batching laws\<close>

text \<open>
  The accumulator after folding a list from the left, when no step fails, and the test
  that no step of such a fold fails.
\<close>

definition fold_acc :: "('a \<Rightarrow> 't \<Rightarrow> 'a \<times> error option) \<Rightarrow> 'a \<Rightarrow> 't list \<Rightarrow> 'a" where
  "fold_acc fn a xs = foldl (\<lambda>acc x. fst (fn acc x)) a xs"

fun steps_ok :: "('a \<Rightarrow> 't \<Rightarrow> 'a \<times> error option) \<Rightarrow> 'a \<Rightarrow> 't list \<Rightarrow> bool" where
  "steps_ok fn a [] = True"
| "steps_ok fn a (x # xs) = (case fn a x of (a', None) \<Rightarrow> steps_ok fn a' xs | (a', Some _) \<Rightarrow> False)"

text \<open>
  The fold function of the test ``stop on error'' (pipeline\_test.go), on Go's \<open>int\<close> (a
  signed word of the platform's width, whose multiplication wraps around): it fails once
  the accumulator exceeds 5 and returns 0 with the error.
\<close>

definition stop_on_error_fn :: "'a::len word \<Rightarrow> 'a word \<Rightarrow> 'a word \<times> error option" where
  "stop_on_error_fn v t = (if 5 <s v then (0, Some (Failure ''io: read/write on closed pipe'')) else (v * t, None))"

text \<open>The windows of size \<open>k\<close> of a list, the last one shorter when the length is no multiple.\<close>

function batches :: "nat \<Rightarrow> 't list \<Rightarrow> 't list list" where
  "batches k xs = (if k = 0 \<or> xs = [] then [] else take k xs # batches k (drop k xs))"
  by pat_completeness auto
termination
  by (relation "measure (\<lambda>(k, xs). length xs)") auto

declare batches.simps [simp del]

section \<open>Futures (src/unnamed/part\_001)\<close>

record 'v futureResult =
  Val :: 'v
  Err :: "error option"

subsection \<open>The stepping closures of Exec and ExecWithDefer\<close>

text \<open>
  \<^verbatim>\<open>
  var executed bool
  ... pipeline.Generate(ctx, func(_ context.Context) (r futureResult[T], ok bool) {
          if ok = !executed; ok {
              r.Val, r.Err = fn(ctx)
          }
          return r, ok
      })
  \<close>
  The closure captures \<open>executed\<close>; no statement of the source assigns to it. The wrapped
  function \<open>fn\<close> is the caller's: it is modelled by its result and its effect on a world
  \<open>'w\<close> of the caller (a counter, a log, ...). The state of the closure is the captured
  flag and that world. The zero value of the result type is \<open>0\<close>.
\<close>

definition Exec_next :: "('w \<Rightarrow> ('v \<times> error option) \<times> 'w) \<Rightarrow> bool \<times> 'w
    \<Rightarrow> (('v::zero) futureResult \<times> bool) \<times> (bool \<times> 'w)" where
  "Exec_next fn s =
     (case s of (executed, w) \<Rightarrow>
        (let ok = \<not> executed in
         if ok then (case fn w of ((v, e), w') \<Rightarrow> ((\<lparr>Val = v, Err = e\<rparr>, ok), (executed, w')))
         else ((\<lparr>Val = 0, Err = None\<rparr>, ok), (executed, w))))"

text \<open>
  A value of type \<open>func()\<close>: a cleanup of the caller (its effect on the world), the literal
  \<open>func() {}\<close>, or the closure that \<open>ThenWithDefer\<close> returns from its body, which has
  captured the local \<open>deferFn\<close> (a channel or \<open>nil\<close>) and the named result \<open>dfn\<close> of the
  body. A \<open>nil\<close> function is \<open>None\<close>.

  The body of \<open>ThenWithDefer\<close> returns with \<open>return func() { ... }, v, err\<close>, which assigns
  the closure to the named result \<open>dfn\<close>, the variable the closure has captured: whatever
  \<open>next\<close> had returned in \<open>dfn\<close> is overwritten, and when the closure runs, \<open>dfn\<close> is the
  closure itself. So the closure has no component for \<open>dfn\<close>.
\<close>

datatype 'w func = UserFunc "'w \<Rightarrow> 'w" | EmptyFunc | ThenCleanup "chan option"

text \<open>
  \<^verbatim>\<open>
  if ok = !executed; !ok { return r, ok }
  var deferFn func()
  deferFn, r.Val, r.Err = fn(ctx)
  go func(out chan<- func(), fn func()) {
      defer close(out)
      if deferFn != nil { out <- fn } else { out <- func() {} }
  }(dfn, deferFn)
  return r, ok
  \<close>
  Besides the flag and the world, the state lists what the goroutines started so far
  send on \<open>dfn\<close>, one entry per goroutine.
\<close>

definition ExecWithDefer_next :: "('w \<Rightarrow> ('w func option \<times> 'v \<times> error option) \<times> 'w)
    \<Rightarrow> bool \<times> 'w \<times> 'w func list
    \<Rightarrow> (('v::zero) futureResult \<times> bool) \<times> (bool \<times> 'w \<times> 'w func list)" where
  "ExecWithDefer_next fn s =
     (case s of (executed, w, handoffs) \<Rightarrow>
        (let ok = \<not> executed in
         if \<not> ok then ((\<lparr>Val = 0, Err = None\<rparr>, ok), (executed, w, handoffs))
         else (case fn w of ((deferFn, v, e), w') \<Rightarrow>
                 ((\<lparr>Val = v, Err = e\<rparr>, ok),
                  (executed, w',
                   handoffs @ [case deferFn of Some g \<Rightarrow> g | None \<Rightarrow> EmptyFunc])))))"

text \<open>
  A wrapped function that counts its invocations in the world and returns 5, as the
  functions of the tests do; the second one also returns a cleanup.
\<close>

definition counting_fn :: "nat \<Rightarrow> (int \<times> error option) \<times> nat" where
  "counting_fn n = ((5, None), Suc n)"

definition counting_defer_fn :: "nat \<Rightarrow> (nat func option \<times> int \<times> error option) \<times> nat" where
  "counting_defer_fn n = ((Some (UserFunc (\<lambda>w. w)), 5, None), Suc n)"

subsection \<open>Futures on a heap\<close>

text \<open>
  \<open>Then\<close> and \<open>ThenWithDefer\<close> assign to a field of the future they are given, and the
  functions they build keep a pointer to it, so futures live at addresses in a store.
  The channels of a future are channel identities as above.
\<close>

type_synonym addr = nat

record Future =
  deferFn :: "chan option"
  result :: chan

text \<open>
  The function values passed to \<open>Exec\<close> and to \<open>ExecWithDefer\<close>: a function of the caller
  (its results and its effect on the world), or the closure built by \<open>Then\<close> (capturing
  \<open>first\<close> and \<open>next\<close>) and by \<open>ThenWithDefer\<close> (capturing \<open>first\<close>, \<open>next\<close> and the local
  \<open>deferFn\<close>).
\<close>

datatype ('v, 'w) exec_fn =
    UserFn "'w \<Rightarrow> ('v \<times> error option) \<times> 'w"
  | ThenFn addr "'v \<Rightarrow> 'w \<Rightarrow> ('v \<times> error option) \<times> 'w"

datatype ('v, 'w) defer_fn =
    UserDeferFn "'w \<Rightarrow> ('w func option \<times> 'v \<times> error option) \<times> 'w"
  | ThenDeferFn addr "'v \<Rightarrow> 'w \<Rightarrow> ('w func option \<times> 'v \<times> error option) \<times> 'w" "chan option"

text \<open>
  The task behind a result channel is the goroutine of \<open>Generate\<close> with the stepping closure
  of \<open>Exec\<close> or of \<open>ExecWithDefer\<close> (which has captured the channel \<open>dfn\<close>). It is at the head
  of its loop, or blocked in the \<open>select\<close> with a result to deliver, or it has returned and
  closed the channel.
\<close>

datatype ('v, 'w) gen_fn = ExecGen "('v, 'w) exec_fn" | ExecWithDeferGen "('v, 'w) defer_fn" chan

datatype 'v gen_status = AtLoopHead | Offering "'v futureResult" | GenClosed

record ('v, 'w) gen_task =
  gen :: "('v, 'w) gen_fn"
  executed :: bool
  status :: "'v gen_status"

text \<open>
  A cleanup channel holds the functions of the handoff goroutines that are blocked in
  their send, oldest first, and may be closed. \<open>sent\<close> counts the handoff goroutines whose
  send has completed and whose deferred \<open>close(out)\<close> has not run yet. \<open>feeder\<close> is the
  result channel whose task starts these goroutines.
\<close>

record 'w func_chan =
  senders :: "'w func list"
  closed :: bool
  sent :: nat
  feeder :: chan

record ('v, 'w) runtime =
  futures :: "addr \<Rightarrow> Future option"
  result_chans :: "chan \<Rightarrow> ('v, 'w) gen_task option"
  func_chans :: "chan \<Rightarrow> 'w func_chan option"
  chan_count :: nat
  future_count :: nat
  token :: ctx
  world :: 'w
  panics :: "string list"
  prompt_close :: bool

text \<open>
  A call may not return: the caller is blocked until another task moves, or it
  panics, or the evaluation runs out of fuel.
\<close>

datatype stop = Blocked | Panicked string | OutOfFuel

definition init_runtime :: "ctx \<Rightarrow> 'w \<Rightarrow> ('v, 'w) runtime" where
  "init_runtime c w =
     \<lparr>futures = (\<lambda>_. None), result_chans = (\<lambda>_. None), func_chans = (\<lambda>_. None),
      chan_count = 0, future_count = 0, token = c, world = w, panics = [],
      prompt_close = True\<rparr>"

text \<open>
  The handoff goroutine (lines 73--81) sends \<open>fn\<close>, or \<open>func() {}\<close> when \<open>deferFn\<close> is \<open>nil\<close>.
  It has nothing to do before the send: it joins the senders of the channel, or panics
  at once when the channel is closed already.
\<close>

definition spawn_handoff :: "chan \<Rightarrow> 'w func option \<Rightarrow> ('v, 'w) runtime \<Rightarrow> ('v, 'w) runtime" where
  "spawn_handoff out dfn st =
     (case func_chans st out of
        None \<Rightarrow> st
      | Some ch \<Rightarrow>
          (let f = (case dfn of Some g \<Rightarrow> g | None \<Rightarrow> EmptyFunc) in
           if closed ch then st\<lparr>panics := panics st @ [''send on closed channel'']\<rparr>
           else st\<lparr>func_chans := (func_chans st)(out \<mapsto> ch\<lparr>senders := senders ch @ [f]\<rparr>)\<rparr>))"

text \<open>
  \<open>close(out)\<close>, the deferred call of a handoff goroutine: closing a closed channel
  panics; closing an open one makes every sender still blocked on it panic.
\<close>

definition close_func_chan :: "'w func_chan \<Rightarrow> string list \<Rightarrow> 'w func_chan \<times> string list" where
  "close_func_chan ch ps =
     (if closed ch then (ch, ps @ [''close of closed channel''])
      else (ch\<lparr>senders := [], closed := True\<rparr>,
            ps @ map (\<lambda>_. ''send on closed channel'') (senders ch)))"

text \<open>
  A receive that finds a blocked sender takes the function of the oldest one. That
  goroutine goes on to its deferred \<open>close(out)\<close>. The schedule decides when: under
  \<open>prompt_close\<close> the close runs before anything else happens; otherwise the goroutine
  stays where it is until \<open>handoff_close\<close> lets it run.
\<close>

definition take_sender :: "chan \<Rightarrow> ('v, 'w) runtime \<Rightarrow> ('w func \<times> ('v, 'w) runtime) option" where
  "take_sender c st =
     (case func_chans st c of
        None \<Rightarrow> None
      | Some ch \<Rightarrow>
          (case senders ch of
             [] \<Rightarrow> None
           | f # others \<Rightarrow>
               (if prompt_close st
                then (case close_func_chan (ch\<lparr>senders := others\<rparr>) (panics st) of
                        (ch', ps) \<Rightarrow>
                          Some (f, st\<lparr>func_chans := (func_chans st)(c \<mapsto> ch'), panics := ps\<rparr>))
                else Some (f, st\<lparr>func_chans := (func_chans st)
                                  (c \<mapsto> ch\<lparr>senders := others, sent := Suc (sent ch)\<rparr>)\<rparr>))))"

definition handoff_close :: "chan \<Rightarrow> ('v, 'w) runtime \<Rightarrow> ('v, 'w) runtime" where
  "handoff_close c st =
     (case func_chans st c of
        None \<Rightarrow> st
      | Some ch \<Rightarrow>
          (case sent ch of
             0 \<Rightarrow> st
           | Suc k \<Rightarrow>
               (case close_func_chan (ch\<lparr>sent := k\<rparr>) (panics st) of
                  (ch', ps) \<Rightarrow> st\<lparr>func_chans := (func_chans st)(c \<mapsto> ch'), panics := ps\<rparr>)))"

definition set_status :: "chan \<Rightarrow> 'v gen_status \<Rightarrow> ('v, 'w) runtime \<Rightarrow> ('v, 'w) runtime" where
  "set_status c s st =
     (case result_chans st c of
        None \<Rightarrow> st
      | Some t \<Rightarrow> st\<lparr>result_chans := (result_chans st)(c \<mapsto> t\<lparr>status := s\<rparr>)\<rparr>)"

text \<open>
  The \<open>select\<close> of \<open>Generate\<close> with a result in hand: the task returns when the token is
  done, and is blocked offering the result otherwise.
\<close>

definition offer :: "chan \<Rightarrow> 'v futureResult \<Rightarrow> ('v, 'w) runtime \<Rightarrow> ('v, 'w) runtime" where
  "offer c r st = set_status c (if ctx_Done (token st) then GenClosed else Offering r) st"

text \<open>
  The operations below call each other in a cycle: \<open>Await\<close> receives from the result
  channel, which lets the task behind it run one round of its loop, which calls the
  function given to \<open>Exec\<close>, which for a future built by \<open>Then\<close> calls \<open>Await\<close> on the first
  future. \<open>Await\<close> takes the depth to which these calls may nest as its first argument;
  the operations it reaches take as their first argument \<open>await\<close> the function \<open>Await\<close>
  of the depth below.

  The schedule of the model is driven by demand: a task runs when a receiver waits for
  it (\<open>recv_result\<close>, \<open>recv_func\<close>) or when it is scheduled explicitly (\<open>gen_step\<close>,
  \<open>handoff_close\<close>). The goroutine of \<open>Generate\<close> is free to go on to its next round as
  soon as a result is taken; in the model it rests at the head of its loop until then, so
  a state of the model is what the caller may observe when its call returns, not the
  state in which every goroutine has come to rest (one more \<open>gen_step\<close> on the channel is
  that next round). Where a \<open>select\<close> has the case of the token and a channel case, the
  model takes the case of the token exactly when the token is done; Go chooses among the
  ready cases at random, so with a done token and a ready channel the model follows one of
  the two possible choices.
\<close>

type_synonym ('v, 'w) await_fn =
  "addr \<Rightarrow> ('v, 'w) runtime \<Rightarrow> (stop + 'v \<times> error option) \<times> ('v, 'w) runtime"

text \<open>
  The function given to \<open>Exec\<close>; for \<open>Then\<close> (lines 93--100):
  \<^verbatim>\<open>
  t, err := first.Await(ctx)
  if err == nil { v, err = next(ctx, t) }
  return v, err
  \<close>
\<close>

definition call_exec_fn :: "('v::zero, 'w) await_fn \<Rightarrow> ('v, 'w) exec_fn \<Rightarrow> ('v, 'w) runtime
    \<Rightarrow> (stop + 'v \<times> error option) \<times> ('v, 'w) runtime" where
  "call_exec_fn await fn st =
     (case fn of
        UserFn g \<Rightarrow> (case g (world st) of ((v, e), w') \<Rightarrow> (Inr (v, e), st\<lparr>world := w'\<rparr>))
      | ThenFn first next \<Rightarrow>
          (case await first st of
             (Inl s, st1) \<Rightarrow> (Inl s, st1)
           | (Inr (t, Some e), st1) \<Rightarrow> (Inr (0, Some e), st1)
           | (Inr (t, None), st1) \<Rightarrow>
               (case next t (world st1) of ((v, e), w') \<Rightarrow> (Inr (v, e), st1\<lparr>world := w'\<rparr>))))"

text \<open>
  The function given to \<open>ExecWithDefer\<close>; for \<open>ThenWithDefer\<close> (lines 115--131) it returns
  the closure over its named result \<open>dfn\<close> and over the local \<open>deferFn\<close> (here \<open>dch\<close>) as
  its cleanup, in place of what \<open>next\<close> returned:
  \<^verbatim>\<open>
  func(ctx context.Context) (dfn func(), v V, err error) {
      t, err := first.Await(ctx)
      if err == nil { dfn, v, err = next(ctx, t) }
      return func() { ... }, v, err
  }
  \<close>
\<close>

definition call_defer_fn :: "('v::zero, 'w) await_fn \<Rightarrow> ('v, 'w) defer_fn \<Rightarrow> ('v, 'w) runtime
    \<Rightarrow> (stop + 'w func option \<times> 'v \<times> error option) \<times> ('v, 'w) runtime" where
  "call_defer_fn await fn st =
     (case fn of
        UserDeferFn g \<Rightarrow>
          (case g (world st) of ((d, v, e), w') \<Rightarrow> (Inr (d, v, e), st\<lparr>world := w'\<rparr>))
      | ThenDeferFn first next dch \<Rightarrow>
          (case await first st of
             (Inl s, st1) \<Rightarrow> (Inl s, st1)
           | (Inr (t, Some e), st1) \<Rightarrow> (Inr (Some (ThenCleanup dch), 0, Some e), st1)
           | (Inr (t, None), st1) \<Rightarrow>
               (case next t (world st1) of
                  ((dfn, v, e), w') \<Rightarrow>
                    (Inr (Some (ThenCleanup dch), v, e), st1\<lparr>world := w'\<rparr>))))"

text \<open>
  One round of the loop of \<open>Generate\<close> with the closure of \<open>Exec\<close> (lines 45--51) or of
  \<open>ExecWithDefer\<close> (lines 64--84), from the head of the loop to the \<open>select\<close>. A task that
  is blocked in the \<open>select\<close> returns when the token is done. Nothing assigns to
  \<open>executed\<close>.
\<close>

definition gen_step :: "('v::zero, 'w) await_fn \<Rightarrow> chan \<Rightarrow> ('v, 'w) runtime
    \<Rightarrow> (stop + unit) \<times> ('v, 'w) runtime" where
  "gen_step await c st =
     (case result_chans st c of
        None \<Rightarrow> (Inr (), st)
      | Some t \<Rightarrow>
          (case status t of
             GenClosed \<Rightarrow> (Inr (), st)
           | Offering r \<Rightarrow>
               (Inr (), if ctx_Done (token st) then set_status c GenClosed st else st)
           | AtLoopHead \<Rightarrow>
               (case gen t of
                  ExecGen fn \<Rightarrow>
                    (if executed t then (Inr (), set_status c GenClosed st)
                     else (case call_exec_fn await fn st of
                             (Inl s, st1) \<Rightarrow> (Inl s, st1)
                           | (Inr (v, e), st1) \<Rightarrow> (Inr (), offer c \<lparr>Val = v, Err = e\<rparr> st1)))
                | ExecWithDeferGen fn dfn \<Rightarrow>
                    (if executed t then (Inr (), set_status c GenClosed st)
                     else (case call_defer_fn await fn st of
                             (Inl s, st1) \<Rightarrow> (Inl s, st1)
                           | (Inr (d, v, e), st1) \<Rightarrow>
                               (Inr (), offer c \<lparr>Val = v, Err = e\<rparr> (spawn_handoff dfn d st1)))))))"

text \<open>
  \<open><-f.result\<close>: the receiver takes the result the task offers, and the task goes back to
  the head of its loop; a task at the head of its loop runs to its \<open>select\<close> first; a
  closed channel delivers the zero result.
\<close>

definition take_result :: "chan \<Rightarrow> ('v::zero, 'w) runtime \<Rightarrow> (stop + 'v futureResult) \<times> ('v, 'w) runtime" where
  "take_result c st =
     (case result_chans st c of
        None \<Rightarrow> (Inl Blocked, st)
      | Some t \<Rightarrow>
          (case status t of
             GenClosed \<Rightarrow> (Inr \<lparr>Val = 0, Err = None\<rparr>, st)
           | Offering r \<Rightarrow> (Inr r, set_status c AtLoopHead st)
           | AtLoopHead \<Rightarrow> (Inl Blocked, st)))"

definition recv_result :: "('v::zero, 'w) await_fn \<Rightarrow> chan \<Rightarrow> ('v, 'w) runtime
    \<Rightarrow> (stop + 'v futureResult) \<times> ('v, 'w) runtime" where
  "recv_result await c st =
     (case gen_step await c st of
        (Inl s, st1) \<Rightarrow> (Inl s, st1)
      | (Inr _, st1) \<Rightarrow> take_result c st1)"

text \<open>
  \<open><-f.deferFn\<close>: the receiver takes the function of a blocked sender; a closed channel
  delivers \<open>nil\<close>; on an open channel without a sender the receiver waits for the task
  that starts the handoff goroutines.
\<close>

definition recv_func :: "('v::zero, 'w) await_fn \<Rightarrow> chan \<Rightarrow> ('v, 'w) runtime
    \<Rightarrow> (stop + 'w func option) \<times> ('v, 'w) runtime" where
  "recv_func await c st =
     (case func_chans st c of
        None \<Rightarrow> (Inl Blocked, st)
      | Some ch \<Rightarrow>
          (case take_sender c st of
             Some (f, st1) \<Rightarrow> (Inr (Some f), st1)
           | None \<Rightarrow>
               if closed ch then (Inr None, st)
               else (case gen_step await (feeder ch) st of
                       (Inl s, st1) \<Rightarrow> (Inl s, st1)
                     | (Inr _, st1) \<Rightarrow>
                         (case take_sender c st1 of
                            Some (f, st2) \<Rightarrow> (Inr (Some f), st2)
                          | None \<Rightarrow> (Inl Blocked, st1)))))"

text \<open>
  A call of a \<open>func()\<close> value; calling \<open>nil\<close> panics. The closure of \<open>ThenWithDefer\<close>
  (lines 121--130, \<open>dch\<close> is its captured \<open>deferFn\<close>):
  \<^verbatim>\<open>
  if dfn != nil { dfn() }
  if deferFn != nil { dfn = <-deferFn; dfn() }
  \<close>
  When it runs, \<open>dfn\<close> holds the closure itself, which is not \<open>nil\<close>: the first statement
  is a call of the closure. The first argument bounds the nesting of the calls; a call
  that nests without end uses up every bound.
\<close>

fun call_func :: "nat \<Rightarrow> ('v::zero, 'w) await_fn \<Rightarrow> 'w func option \<Rightarrow> ('v, 'w) runtime
    \<Rightarrow> (stop + unit) \<times> ('v, 'w) runtime" where
  "call_func 0 await fn st = (Inl OutOfFuel, st)"
| "call_func (Suc n) await None st = (Inl (Panicked ''call of nil func''), st)"
| "call_func (Suc n) await (Some (UserFunc g)) st = (Inr (), st\<lparr>world := g (world st)\<rparr>)"
| "call_func (Suc n) await (Some EmptyFunc) st = (Inr (), st)"
| "call_func (Suc n) await (Some (ThenCleanup dch)) st =
     (case call_func n await (Some (ThenCleanup dch)) st of
        (Inl s, st1) \<Rightarrow> (Inl s, st1)
      | (Inr _, st1) \<Rightarrow>
          (case dch of
             None \<Rightarrow> (Inr (), st1)
           | Some c \<Rightarrow>
               (case recv_func await c st1 of
                  (Inl s, st2) \<Rightarrow> (Inl s, st2)
                | (Inr g, st2) \<Rightarrow> call_func n await g st2)))"

text \<open>
  \<open>Await\<close> (lines 21--37): the \<open>select\<close> (\<open>Await_select\<close>), then the deferred function
  (\<open>Await_deferred\<close>), which reads \<open>f.deferFn\<close> when it runs.
  \<^verbatim>\<open>
  defer func() {
      if f.deferFn != nil { fn := <-f.deferFn; fn() }
  }()
  select {
  case <-ctx.Done(): err = ctx.Err()
  case result := <-f.result: v, err = result.Val, result.Err
  }
  return v, err
  \<close>
\<close>

definition Await_select :: "('v::zero, 'w) await_fn \<Rightarrow> Future \<Rightarrow> ('v, 'w) runtime
    \<Rightarrow> (stop + 'v futureResult) \<times> ('v, 'w) runtime" where
  "Await_select await fut st =
     (if ctx_Done (token st) then (Inr \<lparr>Val = 0, Err = ctx_Err (token st)\<rparr>, st)
      else recv_result await (result fut) st)"

definition Await_deferred :: "nat \<Rightarrow> ('v::zero, 'w) await_fn \<Rightarrow> addr \<Rightarrow> ('v, 'w) runtime
    \<Rightarrow> (stop + unit) \<times> ('v, 'w) runtime" where
  "Await_deferred n await f st =
     (case futures st f of
        None \<Rightarrow> (Inl (Panicked ''nil pointer dereference''), st)
      | Some fut \<Rightarrow>
          (case deferFn fut of
             None \<Rightarrow> (Inr (), st)
           | Some c \<Rightarrow>
               (case recv_func await c st of
                  (Inl s, st1) \<Rightarrow> (Inl s, st1)
                | (Inr fn, st1) \<Rightarrow> call_func n await fn st1)))"

definition Await_body :: "nat \<Rightarrow> ('v::zero, 'w) await_fn \<Rightarrow> addr \<Rightarrow> ('v, 'w) runtime
    \<Rightarrow> (stop + 'v \<times> error option) \<times> ('v, 'w) runtime" where
  "Await_body n await f st =
     (case futures st f of
        None \<Rightarrow> (Inl (Panicked ''nil pointer dereference''), st)
      | Some fut \<Rightarrow>
          (case Await_select await fut st of
             (Inl s, st1) \<Rightarrow> (Inl s, st1)
           | (Inr r, st1) \<Rightarrow>
               (case Await_deferred n await f st1 of
                  (Inl s, st2) \<Rightarrow> (Inl s, st2)
                | (Inr _, st2) \<Rightarrow> (Inr (Val r, Err r), st2))))"

primrec Await :: "nat \<Rightarrow> addr \<Rightarrow> ('v::zero, 'w) runtime
    \<Rightarrow> (stop + 'v \<times> error option) \<times> ('v, 'w) runtime" where
  "Await 0 = (\<lambda>f st. (Inl OutOfFuel, st))"
| "Await (Suc n) = Await_body n (Await n)"

subsection \<open>Exec, ExecWithDefer, Then, ThenWithDefer\<close>

text \<open>
  \<open>Generate\<close> makes the result channel and starts its task; \<open>&Future{...}\<close> takes a new
  address. \<open>ExecWithDefer\<close> makes \<open>dfn\<close> before it calls \<open>Generate\<close>.
\<close>

definition Exec :: "('v, 'w) exec_fn \<Rightarrow> ('v, 'w) runtime \<Rightarrow> addr \<times> ('v, 'w) runtime" where
  "Exec fn st =
     (case make_chan (chan_count st) of (c, n') \<Rightarrow>
        (future_count st,
         st\<lparr>result_chans := (result_chans st)
               (c \<mapsto> \<lparr>gen = ExecGen fn, executed = False, status = AtLoopHead\<rparr>),
            chan_count := n',
            futures := (futures st)(future_count st \<mapsto> \<lparr>deferFn = None, result = c\<rparr>),
            future_count := Suc (future_count st)\<rparr>))"

definition ExecWithDefer :: "('v, 'w) defer_fn \<Rightarrow> ('v, 'w) runtime \<Rightarrow> addr \<times> ('v, 'w) runtime" where
  "ExecWithDefer fn st =
     (case make_chan (chan_count st) of (dfn, n') \<Rightarrow>
        (case make_chan n' of (c, n'') \<Rightarrow>
           (future_count st,
            st\<lparr>func_chans := (func_chans st)(dfn \<mapsto> \<lparr>senders = [], closed = False, sent = 0, feeder = c\<rparr>),
               result_chans := (result_chans st)
                  (c \<mapsto> \<lparr>gen = ExecWithDeferGen fn dfn, executed = False, status = AtLoopHead\<rparr>),
               chan_count := n'',
               futures := (futures st)(future_count st \<mapsto> \<lparr>deferFn = Some dfn, result = c\<rparr>),
               future_count := Suc (future_count st)\<rparr>)))"

definition set_deferFn :: "addr \<Rightarrow> chan option \<Rightarrow> ('v, 'w) runtime \<Rightarrow> ('v, 'w) runtime" where
  "set_deferFn f d st =
     (case futures st f of
        None \<Rightarrow> st
      | Some fut \<Rightarrow> st\<lparr>futures := (futures st)(f \<mapsto> fut\<lparr>deferFn := d\<rparr>)\<rparr>)"

text \<open>
  \<^verbatim>\<open>
  deferFn := first.deferFn
  first.deferFn = nil
  future := Exec(ctx, func ...)          // ExecWithDefer in ThenWithDefer
  if deferFn != nil { future.deferFn = deferFn }
  return future
  \<close>
  Reading \<open>first.deferFn\<close> through a \<open>nil\<close> pointer panics.
\<close>

definition Then :: "addr \<Rightarrow> ('v \<Rightarrow> 'w \<Rightarrow> ('v \<times> error option) \<times> 'w) \<Rightarrow> ('v, 'w) runtime
    \<Rightarrow> (stop + addr) \<times> ('v, 'w) runtime" where
  "Then first next st =
     (case futures st first of
        None \<Rightarrow> (Inl (Panicked ''nil pointer dereference''), st)
      | Some fut \<Rightarrow>
          (let dfn = deferFn fut;
               st1 = set_deferFn first None st
           in case Exec (ThenFn first next) st1 of
                (future, st2) \<Rightarrow>
                  (Inr future, if dfn \<noteq> None then set_deferFn future dfn st2 else st2)))"

definition ThenWithDefer :: "addr \<Rightarrow> ('v \<Rightarrow> 'w \<Rightarrow> ('w func option \<times> 'v \<times> error option) \<times> 'w)
    \<Rightarrow> ('v, 'w) runtime \<Rightarrow> (stop + addr) \<times> ('v, 'w) runtime" where
  "ThenWithDefer first next st =
     (case futures st first of
        None \<Rightarrow> (Inl (Panicked ''nil pointer dereference''), st)
      | Some fut \<Rightarrow>
          (let dfn = deferFn fut;
               st1 = set_deferFn first None st
           in case ExecWithDefer (ThenDeferFn first next dfn) st1 of
                (future, st2) \<Rightarrow>
                  (Inr future, if dfn \<noteq> None then set_deferFn future dfn st2 else st2)))"


subsection \<open>Wrapped functions that log\<close>

text \<open>
  Functions of a caller that append a marker to a log when they run, and whose cleanup
  appends another, in the manner of the two cleanup actions that append sentinel markers
  to a shared sequence. The first returns 5, the second doubles its argument.
\<close>

definition background :: ctx where
  "background = \<lparr>ctx_Done = False, ctx_Err = None\<rparr>"

definition first_fn :: "string list \<Rightarrow> (string list func option \<times> int \<times> error option) \<times> string list" where
  "first_fn w = ((Some (UserFunc (\<lambda>w. w @ [''first cleanup''])), 5, None), w @ [''first fn''])"

definition next_fn :: "int \<Rightarrow> string list
    \<Rightarrow> (string list func option \<times> int \<times> error option) \<times> string list" where
  "next_fn t w = ((Some (UserFunc (\<lambda>w. w @ [''next cleanup''])), t * 2, None), w @ [''next fn''])"

definition plain_next_fn :: "int \<Rightarrow> string list \<Rightarrow> (int \<times> error option) \<times> string list" where
  "plain_next_fn t w = ((t * 2, None), w @ [''next fn''])"

text \<open>
  Three programs of a caller, with the depth bound of \<open>Await\<close> as a parameter. The first
  creates a deferred future. The second composes it with \<open>next_fn\<close> by \<open>ThenWithDefer\<close> and
  awaits the composed future once; it returns the result, the log, and how many handoff
  goroutines are still blocked on the cleanup channel that \<open>ExecWithDefer\<close> made for the
  composed future (channel 2). The third awaits the deferred future twice, under either
  schedule of the deferred \<open>close\<close>, and returns both results, the log and the panics of
  the goroutines.
\<close>

definition deferred_first :: "(int, string list) runtime" where
  "deferred_first = snd (ExecWithDefer (UserDeferFn first_fn) (init_runtime background []))"

definition then_with_defer_run :: "nat
    \<Rightarrow> ((stop + int \<times> error option) \<times> string list \<times> nat option) option" where
  "then_with_defer_run n =
     (case ThenWithDefer 0 next_fn deferred_first of
        (Inl s, st2) \<Rightarrow> None
      | (Inr composed, st2) \<Rightarrow>
          (case Await n composed st2 of
             (r, st3) \<Rightarrow>
               Some (r, world st3, map_option (\<lambda>ch. length (senders ch)) (func_chans st3 2))))"

definition await_twice_run :: "bool \<Rightarrow> nat
    \<Rightarrow> (stop + int \<times> error option) \<times> (stop + int \<times> error option) \<times> string list \<times> string list" where
  "await_twice_run prompt n =
     (case Await n 0 (deferred_first\<lparr>prompt_close := prompt\<rparr>) of
        (r1, st2) \<Rightarrow>
          (case Await n 0 st2 of
             (r2, st3) \<Rightarrow> (r1, r2, world st3, panics st3)))"

section \<open>Range\<close>

lemma sint_add_no_overflow:
  fixes a b :: "'a::len word"
  assumes "- (2 ^ (LENGTH('a) - 1)) \<le> sint a + sint b" "sint a + sint b < 2 ^ (LENGTH('a) - 1)"
  shows "sint (a + b) = sint a + sint b"
  using assms by (simp add: sint_word_ariths signed_take_bit_int_eq_self)

lemma Generate_asc_Nil:
  "Generate (Range_asc_next to step) from [] =
     ([], if from <s to then Waiting else Returned, from + step)"
  by (simp add: Range_asc_next_def)

lemma Generate_asc_Comm:
  "Generate (Range_asc_next to step) from (Comm # cs) =
     (if from <s to
      then (case Generate (Range_asc_next to step) (from + step) cs of
              (out, e, s') \<Rightarrow> (from # out, e, s'))
      else ([], Returned, from + step))"
  by (simp add: Range_asc_next_def)

lemma Generate_desc_Nil:
  "Generate (Range_desc_next to step) from [] =
     ([], if to <s from then Waiting else Returned, from + step)"
  by (simp add: Range_desc_next_def)

lemma Generate_desc_Comm:
  "Generate (Range_desc_next to step) from (Comm # cs) =
     (if to <s from
      then (case Generate (Range_desc_next to step) (from + step) cs of
              (out, e, s') \<Rightarrow> (from # out, e, s'))
      else ([], Returned, from + step))"
  by (simp add: Range_desc_next_def)

lemma Generate_asc:
  fixes "from" to step :: "'a::len word"
  assumes "0 <s step"
  shows "\<forall>x \<in> set (asc_progression (sint from) (sint to) (sint step)).
           x + sint step < 2 ^ (LENGTH('a) - 1)
    \<Longrightarrow> length (asc_progression (sint from) (sint to) (sint step)) \<le> n
    \<Longrightarrow> \<exists>ws s'. Generate (Range_asc_next to step) from (replicate n Comm) = (ws, Returned, s')
           \<and> map sint ws = asc_progression (sint from) (sint to) (sint step)"
proof (induction n arbitrary: "from")
  case 0
  then have "asc_progression (sint from) (sint to) (sint step) = []" by simp
  moreover from assms have "0 < sint step" by (simp add: word_sless_alt)
  ultimately have "\<not> from <s to"
    by (subst (asm) asc_progression.simps) (auto simp: word_sless_alt split: if_splits)
  then show ?case
    by (simp add: Generate_asc_Nil Generate_asc_Comm asc_progression.simps [of "sint from"]
        word_sless_alt del: Generate.simps)
next
  case (Suc n)
  from assms have pos: "0 < sint step" by (simp add: word_sless_alt)
  show ?case
  proof (cases "from <s to")
    case False
    then show ?thesis
      by (simp add: Generate_asc_Nil Generate_asc_Comm asc_progression.simps [of "sint from"]
        word_sless_alt del: Generate.simps)
  next
    case True
    then have lt: "sint from < sint to" by (simp add: word_sless_alt)
    have first: "asc_progression (sint from) (sint to) (sint step)
        = sint from # asc_progression (sint from + sint step) (sint to) (sint step)"
      using pos lt by (subst asc_progression.simps) simp
    with Suc.prems(1) have "sint from + sint step < 2 ^ (LENGTH('a) - 1)" by simp
    moreover have "- (2 ^ (LENGTH('a) - 1)) \<le> sint from" by (rule sint_ge)
    ultimately have step: "sint (from + step) = sint from + sint step"
      using pos by (intro sint_add_no_overflow) auto
    with first have unfold: "asc_progression (sint from) (sint to) (sint step)
        = sint from # asc_progression (sint (from + step)) (sint to) (sint step)"
      by simp
    with Suc.prems have
      "\<forall>x \<in> set (asc_progression (sint (from + step)) (sint to) (sint step)).
         x + sint step < 2 ^ (LENGTH('a) - 1)"
      "length (asc_progression (sint (from + step)) (sint to) (sint step)) \<le> n"
      by simp_all
    from Suc.IH [OF this] obtain ws s' where
      "Generate (Range_asc_next to step) (from + step) (replicate n Comm) = (ws, Returned, s')"
      "map sint ws = asc_progression (sint (from + step)) (sint to) (sint step)"
      by blast
    with True unfold show ?thesis
      by (simp add: Generate_asc_Comm del: Generate.simps)
  qed
qed

lemma Generate_desc:
  fixes "from" to step :: "'a::len word"
  assumes "step <s 0"
  shows "\<forall>x \<in> set (desc_progression (sint from) (sint to) (sint step)).
           - (2 ^ (LENGTH('a) - 1)) \<le> x + sint step
    \<Longrightarrow> length (desc_progression (sint from) (sint to) (sint step)) \<le> n
    \<Longrightarrow> \<exists>ws s'. Generate (Range_desc_next to step) from (replicate n Comm) = (ws, Returned, s')
           \<and> map sint ws = desc_progression (sint from) (sint to) (sint step)"
proof (induction n arbitrary: "from")
  case 0
  then have "desc_progression (sint from) (sint to) (sint step) = []" by simp
  moreover from assms have "sint step < 0" by (simp add: word_sless_alt)
  ultimately have "\<not> to <s from"
    by (subst (asm) desc_progression.simps) (auto simp: word_sless_alt split: if_splits)
  then show ?case
    by (simp add: Generate_desc_Nil Generate_desc_Comm desc_progression.simps [of "sint from"]
        word_sless_alt del: Generate.simps)
next
  case (Suc n)
  from assms have neg: "sint step < 0" by (simp add: word_sless_alt)
  show ?case
  proof (cases "to <s from")
    case False
    then show ?thesis
      by (simp add: Generate_desc_Nil Generate_desc_Comm desc_progression.simps [of "sint from"]
          word_sless_alt del: Generate.simps)
  next
    case True
    then have gt: "sint to < sint from" by (simp add: word_sless_alt)
    have first: "desc_progression (sint from) (sint to) (sint step)
        = sint from # desc_progression (sint from + sint step) (sint to) (sint step)"
      using neg gt by (subst desc_progression.simps) simp
    with Suc.prems(1) have "- (2 ^ (LENGTH('a) - 1)) \<le> sint from + sint step" by simp
    moreover have "sint from < 2 ^ (LENGTH('a) - 1)" by (rule sint_lt)
    ultimately have step: "sint (from + step) = sint from + sint step"
      using neg by (intro sint_add_no_overflow) auto
    with first have unfold: "desc_progression (sint from) (sint to) (sint step)
        = sint from # desc_progression (sint (from + step)) (sint to) (sint step)"
      by simp
    with Suc.prems have
      "\<forall>x \<in> set (desc_progression (sint (from + step)) (sint to) (sint step)).
         - (2 ^ (LENGTH('a) - 1)) \<le> x + sint step"
      "length (desc_progression (sint (from + step)) (sint to) (sint step)) \<le> n"
      by simp_all
    from Suc.IH [OF this] obtain ws s' where
      "Generate (Range_desc_next to step) (from + step) (replicate n Comm) = (ws, Returned, s')"
      "map sint ws = desc_progression (sint (from + step)) (sint to) (sint step)"
      by blast
    with True unfold show ?thesis
      by (simp add: Generate_desc_Comm del: Generate.simps)
  qed
qed

lemma Generate_stop:
  "\<not> snd (fst (next s)) \<Longrightarrow> Generate next s sched = ([], Returned, snd (next s))"
  by (cases sched) (auto split: prod.splits)

lemma ToChan_single:
  "ToChan zero [x] (replicate (Suc n) Comm) = ([x], Returned)"
proof -
  have "Generate (ToChan_next zero [x]) (Suc 0) (replicate n Comm) = ([], Returned, Suc (Suc 0))"
    by (subst Generate_stop) (simp_all add: ToChan_next_def)
  then show ?thesis
    by (simp add: ToChan_def ToChan_next_def)
qed

lemma asc_progression_unit: "asc_progression i to 1 = [i..to - 1]"
proof (induction i to "1::int" rule: asc_progression.induct)
  case (1 i to)
  show ?case
  proof (cases "i < to")
    case True
    with 1 show ?thesis
      by (subst asc_progression.simps, subst upto_rec1) simp_all
  next
    case False
    then show ?thesis
      by (subst asc_progression.simps) simp
  qed
qed

lemma desc_progression_unit: "desc_progression i to (- 1) = rev [to + 1..i]"
proof (induction i to "- 1::int" rule: desc_progression.induct)
  case (1 i to)
  show ?case
  proof (cases "to < i")
    case True
    with 1 have "desc_progression (i + - 1) to (- 1) = rev [to + 1..i - 1]" by simp
    with True show ?thesis
      by (subst desc_progression.simps, subst upto_rec2) simp_all
  next
    case False
    then show ?thesis
      by (subst desc_progression.simps) simp
  qed
qed

lemma Range_asc_yields:
  fixes "from" to step :: "'a::len word"
  assumes "from <s to" "0 <s step"
    and "\<forall>x \<in> set (asc_progression (sint from) (sint to) (sint step)).
           x + sint step < 2 ^ (LENGTH('a) - 1)"
    and "length (asc_progression (sint from) (sint to) (sint step)) \<le> n"
  shows "yields (Range from to (step # rest) (replicate n Comm))
           (asc_progression (sint from) (sint to) (sint step))"
proof -
  from Generate_asc [OF assms(2-4)] obtain ws s' where
    "Generate (Range_asc_next to step) from (replicate n Comm) = (ws, Returned, s')"
    "map sint ws = asc_progression (sint from) (sint to) (sint step)"
    by blast
  moreover from assms(2) have "\<not> step \<le>s 0"
    by (simp add: word_sless_alt word_sle_eq)
  ultimately show ?thesis
    using assms(1) by (simp add: Range_def yields_def)
qed

lemma Range_desc_yields:
  fixes "from" to step :: "'a::len word"
  assumes "to <s from" "step <s 0"
    and "\<forall>x \<in> set (desc_progression (sint from) (sint to) (sint step)).
           - (2 ^ (LENGTH('a) - 1)) \<le> x + sint step"
    and "length (desc_progression (sint from) (sint to) (sint step)) \<le> n"
  shows "yields (Range from to (step # rest) (replicate n Comm))
           (desc_progression (sint from) (sint to) (sint step))"
proof -
  from Generate_desc [OF assms(2-4)] obtain ws s' where
    "Generate (Range_desc_next to step) from (replicate n Comm) = (ws, Returned, s')"
    "map sint ws = desc_progression (sint from) (sint to) (sint step)"
    by blast
  moreover from assms(2) have "\<not> 0 \<le>s step"
    by (simp add: word_sless_alt word_sle_eq)
  moreover from assms(1) have "\<not> from <s to"
    by (simp add: word_sless_alt)
  ultimately show ?thesis
    using assms(1) by (simp add: Range_def yields_def)
qed

lemma Range_no_step:
  "Range from to [] sched = Range from to [if to <s from then - 1 else 1] sched"
  by (simp add: Range_def)

lemma Range_default_asc:
  fixes "from" to :: "'a::len word"
  assumes "1 < LENGTH('a)" "from <s to" "length (asc_progression (sint from) (sint to) 1) \<le> n"
  shows "yields (Range from to [] (replicate n Comm)) (asc_progression (sint from) (sint to) 1)"
proof -
  from assms(1) have one: "sint (1 :: 'a word) = 1" by simp
  have "sint to < 2 ^ (LENGTH('a) - 1)" by (rule sint_lt)
  then have "\<forall>x \<in> set (asc_progression (sint from) (sint to) 1). x + 1 < 2 ^ (LENGTH('a) - 1)"
    by (auto simp: asc_progression_unit)
  with one have "\<forall>x \<in> set (asc_progression (sint from) (sint to) (sint (1 :: 'a word))).
      x + sint (1 :: 'a word) < 2 ^ (LENGTH('a) - 1)"
    by simp
  moreover from one have "0 <s (1 :: 'a word)" by (simp add: word_sless_alt)
  moreover from assms(2) have "\<not> to <s from" by (simp add: word_sless_alt)
  ultimately show ?thesis
    using Range_asc_yields [of "from" to 1 n "[]"] assms(2,3) one
    by (simp add: Range_no_step)
qed

lemma Range_default_desc:
  fixes "from" to :: "'a::len word"
  assumes "to <s from" "length (desc_progression (sint from) (sint to) (- 1)) \<le> n"
  shows "yields (Range from to [] (replicate n Comm)) (desc_progression (sint from) (sint to) (- 1))"
proof -
  have "- (2 ^ (LENGTH('a) - 1)) \<le> sint to" by (rule sint_ge)
  then have "\<forall>x \<in> set (desc_progression (sint from) (sint to) (- 1)).
      - (2 ^ (LENGTH('a) - 1)) \<le> x + (- 1)"
    by (auto simp: desc_progression_unit)
  then have "\<forall>x \<in> set (desc_progression (sint from) (sint to) (sint (- 1 :: 'a word))).
      - (2 ^ (LENGTH('a) - 1)) \<le> x + sint (- 1 :: 'a word)"
    by simp
  moreover have "(- 1 :: 'a word) <s 0" by (simp add: word_sless_alt)
  ultimately show ?thesis
    using Range_desc_yields [of to "from" "- 1" n "[]"] assms
    by (simp add: Range_no_step)
qed

lemma Range_same:
  "0 < n \<Longrightarrow> yields (Range x x optStep (replicate n Comm)) [sint x]"
  by (cases n) (simp_all add: Range_def yields_def ToChan_single del: replicate.simps)

text \<open>
  Claim C6, as amended: for the signed integer element types. Without cancellation (a
  schedule of \<open>n\<close> completed sends, with \<open>n\<close> at least the number of elements),
  \<open>Range(from, to)\<close> delivers exactly the progression
  from \<open>from\<close> with step +1 while \<open>i < to\<close> (ascending) or step -1 while \<open>i > to\<close>
  (descending) and then closes; \<open>Range(from, to, step)\<close> delivers exactly the progression
  with the given step, exclusive of \<open>to\<close>, and then closes, provided the addition
  \<open>from += step\<close> does not wrap around at any element of the progression (\<open>i + step\<close> fits
  the element type for every emitted \<open>i\<close>); \<open>Range(x, x)\<close> delivers the single value \<open>x\<close>.
  The element type is a signed integer type (a word of its width; two bits are enough
  for the statement, the types of \<open>Rangeable\<close> have eight or more). The statement does not
  cover \<open>float32\<close> and \<open>float64\<close>.
\<close>

theorem Range_progression:
  fixes "from" to step :: "'a::len word"
  shows
  "(1 < LENGTH('a) \<and> from <s to \<and> length (asc_progression (sint from) (sint to) 1) \<le> n
      \<longrightarrow> yields (Range from to [] (replicate n Comm)) (asc_progression (sint from) (sint to) 1))
   \<and> (to <s from \<and> length (desc_progression (sint from) (sint to) (- 1)) \<le> n
      \<longrightarrow> yields (Range from to [] (replicate n Comm)) (desc_progression (sint from) (sint to) (- 1)))
   \<and> (from <s to \<and> 0 <s step
        \<and> (\<forall>x \<in> set (asc_progression (sint from) (sint to) (sint step)).
              x + sint step < 2 ^ (LENGTH('a) - 1))
        \<and> length (asc_progression (sint from) (sint to) (sint step)) \<le> n
      \<longrightarrow> yields (Range from to (step # rest) (replicate n Comm))
            (asc_progression (sint from) (sint to) (sint step)))
   \<and> (to <s from \<and> step <s 0
        \<and> (\<forall>x \<in> set (desc_progression (sint from) (sint to) (sint step)).
              - (2 ^ (LENGTH('a) - 1)) \<le> x + sint step)
        \<and> length (desc_progression (sint from) (sint to) (sint step)) \<le> n
      \<longrightarrow> yields (Range from to (step # rest) (replicate n Comm))
            (desc_progression (sint from) (sint to) (sint step)))
   \<and> (0 < n \<longrightarrow> yields (Range from from optStep (replicate n Comm)) [sint from])"
  using Range_default_asc [of "from" to n] Range_default_desc [of to "from" n]
    Range_asc_yields [of "from" to step n rest] Range_desc_yields [of to "from" step n rest]
    Range_same [of n "from" optStep]
  by blast

theorem Range_progression_witness:
  "yields (Range (10 :: 64 word) 99 [] (replicate 89 Comm)) [10..98]
   \<and> yields (Range (99 :: 64 word) 10 [] (replicate 89 Comm)) (rev [11..99])
   \<and> yields (Range (10 :: 64 word) 99 [5] (replicate 18 Comm))
        [10, 15, 20, 25, 30, 35, 40, 45, 50, 55, 60, 65, 70, 75, 80, 85, 90, 95]
   \<and> yields (Range (99 :: 64 word) 10 [- 5] (replicate 18 Comm))
        [99, 94, 89, 84, 79, 74, 69, 64, 59, 54, 49, 44, 39, 34, 29, 24, 19, 14]
   \<and> yields (Range (10 :: 64 word) 10 [] (replicate 1 Comm)) [10]
   \<and> yields (Range (0 :: 8 word) 127 [127] (replicate 1 Comm)) [0]"
proof -
  have b: "asc_progression 0 127 127 = [0]"
    by (simp add: asc_progression.simps)
  have a: "asc_progression 10 99 5 =
      [10, 15, 20, 25, 30, 35, 40, 45, 50, 55, 60, 65, 70, 75, 80, 85, 90, 95]"
    by (simp add: asc_progression.simps)
  have d: "desc_progression 99 10 (- 5) =
      [99, 94, 89, 84, 79, 74, 69, 64, 59, 54, 49, 44, 39, 34, 29, 24, 19, 14]"
    by (simp add: desc_progression.simps)
  show ?thesis
    using Range_progression [of "10 :: 64 word" 99 89 5 "[]" "[]"]
      Range_progression [of "99 :: 64 word" 10 89 "- 5" "[]" "[]"]
      Range_progression [of "10 :: 64 word" 99 18 5 "[]" "[]"]
      Range_progression [of "99 :: 64 word" 10 18 "- 5" "[]" "[]"]
      Range_progression [of "10 :: 64 word" 10 1 0 "[]" "[]"]
      Range_progression [of "0 :: 8 word" 127 1 127 "[]" "[]"]
    by (simp add: word_sless_alt asc_progression_unit desc_progression_unit a b d)
qed

text \<open>
  Claim C6 as written has no proviso on the step. For \<open>int8\<close>, \<open>Range(0, 127, 100)\<close> computes
  \<open>100 + 100\<close>, which wraps to \<open>-56 < 127\<close>: the third value delivered is \<open>-56\<close> and the
  task goes on, while the progression exclusive of 127 is \<open>0, 100\<close>.
\<close>

theorem Range_overflow_counterexample:
  "Range (0 :: 8 word) 127 [100] (replicate 3 Comm) = Inr ([0, 100, - 56], Waiting)
   \<and> asc_progression 0 127 100 = [0, 100]"
proof -
  have "Range (0 :: 8 word) 127 [100] (replicate 3 Comm) = Inr ([0, 100, - 56], Waiting)"
    by code_simp
  moreover have "asc_progression 0 127 100 = [0, 100]"
    by (simp add: asc_progression.simps)
  ultimately show ?thesis by simp
qed

text \<open>
  Claim C7. When \<open>from\<close> differs from \<open>to\<close> and the sign of the supplied step does not match
  the direction, \<open>Range\<close> panics instead of returning a channel: ascending with
  \<open>step \<le> 0\<close>, descending with \<open>step \<ge> 0\<close>, whatever else follows in the variadic argument.
  \<open>Range(10, 99, -5)\<close> and \<open>Range(10, -99, 5)\<close> are the instances of the witness.
\<close>

theorem Range_wrong_step_panics:
  "(from <s to \<and> step \<le>s 0
      \<longrightarrow> Range from to (step # rest) sched = Inl (Panic ''step must be greater than 0''))
   \<and> (to <s from \<and> 0 \<le>s step
      \<longrightarrow> Range from to (step # rest) sched = Inl (Panic ''step must be less than 0''))"
  by (auto simp: Range_def word_sless_alt word_sle_eq)

theorem Range_wrong_step_panics_witness:
  "(10 :: 64 word) <s 99 \<and> (- 5 :: 64 word) \<le>s 0
   \<and> Range (10 :: 64 word) 99 [- 5] [] = Inl (Panic ''step must be greater than 0'')
   \<and> (- 99 :: 64 word) <s 10 \<and> (0 :: 64 word) \<le>s 5
   \<and> Range (10 :: 64 word) (- 99) [5] [] = Inl (Panic ''step must be less than 0'')"
  using Range_wrong_step_panics [of "10 :: 64 word" 99 "- 5" "[]" "[]"]
    Range_wrong_step_panics [of "10 :: 64 word" "- 99" 5 "[]" "[]"]
  by (simp add: word_sless_alt word_sle_eq)

section \<open>Accumulate and Collector\<close>

lemma Map_loop_all_Comm:
  "2 * length inp + 1 \<le> m \<Longrightarrow> Map_loop fn inp (replicate m Comm) = (map fn inp, Returned, [])"
proof (induction inp arbitrary: m)
  case Nil
  then obtain m' where "m = Suc m'" by (cases m) auto
  then show ?case by simp
next
  case (Cons v vs)
  then obtain m' where m: "m = Suc (Suc m')" "2 * length vs + 1 \<le> m'"
    by (cases m; cases "m - 1") auto
  with Cons.IH [of m'] show ?case by simp
qed

lemma OrDone_all_Comm:
  "2 * length inp + 1 \<le> m \<Longrightarrow> OrDone inp (replicate m Comm) = (inp, Returned, [])"
  by (simp add: OrDone_def Map_def Map_loop_all_Comm)

lemma Map_loop_reads_ahead:
  "j < length inp \<Longrightarrow>
     Map_loop fn inp (replicate (2 * j + 1) Comm) = (map fn (take j inp), Waiting, drop (Suc j) inp)"
proof (induction j arbitrary: inp)
  case 0
  then show ?case by (cases inp) simp_all
next
  case (Suc j)
  then obtain v vs where inp: "inp = v # vs" "j < length vs" by (cases inp) auto
  with Suc.IH [of vs] show ?case by simp
qed

text \<open>
  The gate reads ahead: once the consumer has taken \<open>j\<close> items and the gate has gone round
  its loop again, the gate is blocked in the send of item \<open>j + 1\<close>, which has left the
  input.
\<close>

lemma OrDone_reads_ahead:
  "j < length inp \<Longrightarrow>
     OrDone inp (replicate (2 * j + 1) Comm) = (take j inp, Waiting, drop (Suc j) inp)"
  using Map_loop_reads_ahead [of j inp "\<lambda>t. t"] by (simp add: OrDone_def Map_def)

lemma Accumulate_range_error:
  "steps_ok fn a pre \<Longrightarrow> fn (fold_acc fn a pre) x = (out', Some err)
    \<Longrightarrow> Accumulate_range fn a (pre @ x # post) e = Some (out', Some err, post)"
  by (induction pre arbitrary: a) (auto simp: fold_acc_def split: prod.splits option.splits)

lemma Accumulate_range_ok:
  "steps_ok fn a xs \<Longrightarrow> Accumulate_range fn a xs Returned = Some (fold_acc fn a xs, None, [])"
  by (induction xs arbitrary: a) (auto simp: fold_acc_def split: prod.splits option.splits)

text \<open>
  Claim C5, as amended. \<open>Accumulate\<close> folds the items that come through the gate from the
  left, starting from the initial value. If a step of the fold fails (the items before it
  having succeeded), \<open>Accumulate\<close> returns at once with that error and with the accumulator
  that the failing call of \<open>fn\<close> itself returned, and its loop has received nothing after
  the failing item. If no step fails and the gate has closed, it returns the folded
  accumulator with the error of the token when the token is done and with no error
  otherwise. Without cancellation the gate delivers the whole input and closes.
\<close>

theorem Accumulate_fold:
  "(OrDone inp gate = (pre @ x # post, e, rest) \<and> steps_ok fn initVal pre
      \<and> fn (fold_acc fn initVal pre) x = (out', Some err)
      \<longrightarrow> Accumulate ctx gate fn initVal inp = Some (out', Some err)
          \<and> Accumulate_range fn initVal (pre @ x # post) e = Some (out', Some err, post))
   \<and> (OrDone inp gate = (gated, Returned, rest) \<and> steps_ok fn initVal gated
      \<longrightarrow> Accumulate ctx gate fn initVal inp
            = Some (fold_acc fn initVal gated, if ctx_Done ctx then ctx_Err ctx else None))
   \<and> (2 * length inp + 1 \<le> m \<longrightarrow> OrDone inp (replicate m Comm) = (inp, Returned, []))"
  by (auto simp: Accumulate_def Accumulate_range_error Accumulate_range_ok ErrorIfDone_def
      OrDone_all_Comm)

theorem Accumulate_fold_witness:
  "Accumulate \<lparr>ctx_Done = False, ctx_Err = None\<rparr> (replicate 7 Comm) stop_on_error_fn 1 [2, 3, 4 :: 64 word]
      = Some (0, Some (Failure ''io: read/write on closed pipe''))
   \<and> Accumulate \<lparr>ctx_Done = True, ctx_Err = Some Canceled\<rparr> (replicate 5 Comm) stop_on_error_fn 1 [2, 2 :: 64 word]
      = Some (4, Some Canceled)
   \<and> OrDone [2, 3, 4 :: 64 word] (replicate 7 Comm) = ([2, 3, 4], Returned, [])"
  using Accumulate_fold [where inp = "[2, 3, 4 :: 64 word]" and gate = "replicate 7 Comm" and pre = "[2, 3]"
      and x = 4 and post = "[]" and e = Returned and fn = stop_on_error_fn and initVal = 1
      and out' = 0 and err = "Failure ''io: read/write on closed pipe''" and gated = "[2, 3, 4]" and rest = "[]"
      and ctx = "\<lparr>ctx_Done = False, ctx_Err = None\<rparr>" and m = 7]
    Accumulate_fold [where inp = "[2, 2 :: 64 word]" and gate = "replicate 5 Comm" and pre = "[]"
      and x = 2 and post = "[2]" and e = Returned and fn = stop_on_error_fn and initVal = 1
      and out' = 0 and err = "Failure ''io: read/write on closed pipe''" and gated = "[2, 2]" and rest = "[]"
      and ctx = "\<lparr>ctx_Done = True, ctx_Err = Some Canceled\<rparr>" and m = 5]
  by (simp add: stop_on_error_fn_def fold_acc_def OrDone_def Map_def numeral_eq_Suc word_sless_alt)

text \<open>
  Claim C5 as written returns, with the error, the accumulator of the items strictly
  before the failing one. With the fold function of the test ``stop on error'', initial
  value 1 and input 2, 3, 4 the first two steps succeed and fold to 6, the step on item 4
  fails and returns 0 with the error, and \<open>Accumulate\<close> returns that 0 (the test asserts
  that the result is zero).
\<close>

theorem Accumulate_failing_step_counterexample:
  "Accumulate \<lparr>ctx_Done = False, ctx_Err = None\<rparr> (replicate 7 Comm) stop_on_error_fn 1 [2, 3, 4 :: 64 word]
      = Some (0, Some (Failure ''io: read/write on closed pipe''))
   \<and> steps_ok stop_on_error_fn 1 [2, 3 :: 64 word]
   \<and> fold_acc stop_on_error_fn 1 [2, 3 :: 64 word] = 6
   \<and> stop_on_error_fn 6 (4 :: 64 word) = (0, Some (Failure ''io: read/write on closed pipe''))"
  by (simp add: Accumulate_def OrDone_def Map_def stop_on_error_fn_def fold_acc_def numeral_eq_Suc
      word_sless_alt)

lemma sliceCollector_loop_eq:
  "sliceCollector_loop m r inp = ((r @ take m inp, length (r @ take m inp) > 0), drop m inp)"
  by (induction m r inp rule: sliceCollector_loop.induct) auto

lemma sliceCollector_eq:
  "sliceCollector k inp = ((take k inp, take k inp \<noteq> []), drop k inp)"
  by (auto simp: sliceCollector_def sliceCollector_loop_eq)

lemma batches_Nil: "batches k [] = []"
  by (simp add: batches.simps)

lemma batches_Cons:
  "0 < k \<Longrightarrow> xs \<noteq> [] \<Longrightarrow> batches k xs = take k xs # batches k (drop k xs)"
  by (subst batches.simps) simp

lemma length_batches: "0 < k \<Longrightarrow> length (batches k xs) = (length xs + k - 1) div k"
proof (induction k xs rule: batches.induct)
  case (1 k xs)
  show ?case
  proof (cases "xs = []")
    case True
    with 1 show ?thesis by (simp add: batches_Nil)
  next
    case False
    with 1 have IH: "length (batches k (drop k xs)) = (length xs - k + k - 1) div k" by simp
    show ?thesis
    proof (cases "k \<le> length xs")
      case True
      have e1: "length xs + k - 1 = (length xs - 1) + k" using True 1(2) by arith
      have e2: "length xs - k + k - 1 = length xs - 1" using True by arith
      have "(length xs + k - 1) div k = Suc ((length xs - 1) div k)"
        unfolding e1 using 1(2) div_add_self2 [of k "length xs - 1"] by simp
      then have e3: "(length xs + k - 1) div k = Suc ((length xs - k + k - 1) div k)"
        unfolding e2 .
      from False 1(2) have "length (batches k xs) = Suc (length (batches k (drop k xs)))"
        by (simp add: batches_Cons)
      with IH e3 show ?thesis by (simp only:)
    next
      case False
      with \<open>xs \<noteq> []\<close> have "k \<le> length xs + k - 1" "length xs + k - 1 < 2 * k"
        by (cases xs; simp)+
      then have "(length xs + k - 1) div k = 1"
        by (intro div_nat_eqI) auto
      moreover from False \<open>xs \<noteq> []\<close> 1(2) have "length (batches k xs) = 1"
        by (simp add: batches_Cons batches_Nil)
      ultimately show ?thesis by (simp only:)
    qed
  qed
qed


lemma concat_batches: "0 < k \<Longrightarrow> concat (batches k xs) = xs"
proof (induction k xs rule: batches.induct)
  case (1 k xs)
  then show ?case
    by (cases "xs = []") (simp_all add: batches_Nil batches_Cons)
qed

lemma batches_sizes:
  "0 < k \<Longrightarrow> i < length (batches k xs) \<Longrightarrow>
     length (batches k xs ! i) =
       (if Suc i < length (batches k xs) \<or> length xs mod k = 0 then k else length xs mod k)"
proof (induction k xs arbitrary: i rule: batches.induct)
  case (1 k xs)
  from 1(3) have ne: "xs \<noteq> []" by (auto simp: batches_Nil)
  with 1(2) have unfold: "batches k xs = take k xs # batches k (drop k xs)"
    by (simp add: batches_Cons)
  show ?case
  proof (cases "length xs \<le> k")
    case True
    then have "batches k xs = [xs]" using unfold by (simp add: batches_Nil)
    moreover from True ne 1(2) have "length xs mod k = 0 \<longleftrightarrow> length xs = k"
      by (cases "length xs = k") auto
    ultimately show ?thesis using 1(3) True by auto
  next
    case False
    then have long: "k < length xs" by simp
    then have rest_ne: "batches k (drop k xs) \<noteq> []"
      using 1(2) by (subst batches.simps) simp
    from long have md: "(length xs - k) mod k = length xs mod k"
      by (simp add: le_mod_geq)
    show ?thesis
    proof (cases i)
      case 0
      with long rest_ne unfold show ?thesis by (simp add: min_def)
    next
      case (Suc j)
      with 1(3) unfold have j: "j < length (batches k (drop k xs))" by simp
      from 1(1) [OF _ 1(2) j] ne 1(2) md Suc unfold show ?thesis by simp
    qed
  qed
qed

lemma Collector_loop_slices:
  "0 < k \<Longrightarrow> length (batches k xs) \<le> n \<Longrightarrow>
     Collector_loop (sliceCollector k) xs (replicate n Comm) = (batches k xs, Returned, [])"
proof (induction n arbitrary: xs)
  case 0
  then have "batches k xs = []" by simp
  with 0(1) have "xs = []" by (subst (asm) batches.simps) (simp split: if_splits)
  then show ?case by (simp add: sliceCollector_eq batches_Nil)
next
  case (Suc n)
  show ?case
  proof (cases "xs = []")
    case True
    then show ?thesis by (simp add: sliceCollector_eq batches_Nil)
  next
    case False
    with Suc.prems have unfold: "batches k xs = take k xs # batches k (drop k xs)"
      by (simp add: batches_Cons)
    with Suc.prems have "length (batches k (drop k xs)) \<le> n" by simp
    from Suc.IH [OF Suc.prems(1) this] False Suc.prems(1) unfold show ?thesis
      by (simp add: sliceCollector_eq)
  qed
qed

text \<open>
  Claim C8. With the fixed-size batching rule of size \<open>k > 0\<close>, an input of length \<open>L\<close>
  and no cancellation (the gate and the consumer take every send), \<open>Collector\<close> delivers
  exactly \<open>ceil(L / k)\<close> aggregates and closes its output; every aggregate has size \<open>k\<close>
  except possibly the last, which has size \<open>L mod k\<close> when that is not zero; together
  they are the input, in order.
\<close>

theorem Collector_batching_law:
  assumes "0 < k" "(length xs + k - 1) div k \<le> n" "2 * length xs + 1 \<le> m"
  shows "\<exists>out. Collector (sliceCollector k) xs (replicate m Comm) (replicate n Comm)
             = Some (out, Returned)
           \<and> length out = (length xs + k - 1) div k
           \<and> (\<forall>i < length out. length (out ! i) =
                 (if Suc i < length out \<or> length xs mod k = 0 then k else length xs mod k))
           \<and> concat out = xs"
proof -
  from assms(1,2) have "length (batches k xs) \<le> n" by (simp add: length_batches)
  with assms(1) have "Collector_loop (sliceCollector k) xs (replicate n Comm)
      = (batches k xs, Returned, [])"
    by (rule Collector_loop_slices)
  with assms(3) have "Collector (sliceCollector k) xs (replicate m Comm) (replicate n Comm)
      = Some (batches k xs, Returned)"
    by (simp add: Collector_def OrDone_all_Comm)
  moreover have "length (batches k xs) = (length xs + k - 1) div k"
    using assms(1) by (rule length_batches)
  moreover have "\<forall>i < length (batches k xs). length (batches k xs ! i) =
      (if Suc i < length (batches k xs) \<or> length xs mod k = 0 then k else length xs mod k)"
    using assms(1) by (simp add: batches_sizes)
  moreover have "concat (batches k xs) = xs"
    using assms(1) by (rule concat_batches)
  ultimately show ?thesis by blast
qed

theorem Collector_batching_law_witness:
  "(0 :: nat) < 3 \<and> (length [1, 2, 3, 4, 5, 6, 7 :: int] + 3 - 1) div 3 \<le> 3
   \<and> 2 * length [1, 2, 3, 4, 5, 6, 7 :: int] + 1 \<le> 15
   \<and> Collector (sliceCollector 3) [1, 2, 3, 4, 5, 6, 7 :: int] (replicate 15 Comm) (replicate 3 Comm)
      = Some ([[1, 2, 3], [4, 5, 6], [7]], Returned)"
proof -
  from Collector_batching_law [of 3 "[1, 2, 3, 4, 5, 6, 7 :: int]" 3 15]
  obtain out where
    "Collector (sliceCollector 3) [1, 2, 3, 4, 5, 6, 7 :: int] (replicate 15 Comm) (replicate 3 Comm)
       = Some (out, Returned)" "concat out = [1, 2, 3, 4, 5, 6, 7]" "length out = 3"
    "\<forall>i < length out. length (out ! i) =
       (if Suc i < length out \<or> length [1, 2, 3, 4, 5, 6, 7 :: int] mod 3 = 0 then 3
        else length [1, 2, 3, 4, 5, 6, 7 :: int] mod 3)"
    by auto
  moreover have "Collector (sliceCollector 3) [1, 2, 3, 4, 5, 6, 7 :: int] (replicate 15 Comm)
      (replicate 3 Comm) = Some ([[1, 2, 3], [4, 5, 6], [7]], Returned)"
    by code_simp
  ultimately show ?thesis by simp
qed

section \<open>Sends that do not watch the token\<close>

lemma fanout_CtxDone:
  "fanout (v # vs) (replicate n CtxDone) = ([], Waiting)"
  by (induction n) simp_all

lemma Limit_send_CtxDone:
  "Limit_send k i v vs (replicate n CtxDone) = ([], Waiting)"
  by (induction n) simp_all

lemma Generate_watches_token:
  "fst (snd (Generate next s (CtxDone # cs))) = Returned"
  by (simp split: prod.splits)

lemma Collector_loop_watches_token:
  "fst (snd (Collector_loop fn inp (CtxDone # cs))) = Returned"
  by (simp split: prod.splits)

text \<open>
  Claim C3 fails on the code. A relay of \<open>Merge\<close> that holds an item, and the task of
  \<open>Limit\<close> that holds one, are blocked in a plain send: however often the token is
  offered as done while no receiver comes, they stay blocked and deliver nothing.
  \<open>Generate\<close> and \<open>Collector\<close> return on the first such offer.
\<close>

theorem plain_send_ignores_token:
  "fanout (v # vs) (replicate n CtxDone) = ([], Waiting)
   \<and> Limit 1 (v # vs) (replicate n CtxDone) = ([], Waiting)
   \<and> fst (snd (Generate next s (CtxDone # cs))) = Returned"
  using fanout_CtxDone [of v vs n] Limit_send_CtxDone [of 1 0 v vs n]
    Generate_watches_token [of "next" s cs]
  by (simp add: Limit_def del: Generate.simps)

section \<open>Merge with fewer than two inputs\<close>

lemma OrDone_chans_fresh:
  "OrDone_chans chans h = (map (\<lambda>i. h + i) [0..<length chans], h + length chans)"
proof (induction chans arbitrary: h)
  case Nil
  show ?case by simp
next
  case (Cons c cs)
  have "map (\<lambda>i. h + i) [0..<Suc (length cs)] = h # map (\<lambda>i. Suc h + i) [0..<length cs]"
    by (simp add: map_upt_Suc del: upt_Suc)
  with Cons [of "Suc h"] show ?case by (simp add: make_chan_def)
qed

lemma Merge_two_or_more:
  "Merge ctx (c1 # c2 # cs) h =
     ((Some h, Some \<lparr>relay_inputs = map (\<lambda>i. Suc h + i) [0..<Suc (Suc (length cs))],
                       wg_count = Suc (Suc (length cs)), closes_at_once = False\<rparr>),
      Suc h + Suc (Suc (length cs)))"
  using OrDone_chans_fresh [of "c1 # c2 # cs" "Suc h"]
  by (simp add: Merge_def make_chan_def del: OrDone_chans.simps upt_Suc)

lemma Merge_without_ctx_makes_channel:
  "Merge_without_ctx [] h = ((Some h, Some \<lparr>relay_inputs = [], wg_count = 0, closes_at_once = True\<rparr>), Suc h)
   \<and> Merge_without_ctx [c] h = ((Some h, Some \<lparr>relay_inputs = [c], wg_count = 1, closes_at_once = False\<rparr>), Suc h)"
  by (simp add: Merge_without_ctx_def make_chan_def)

text \<open>
  Claim C4. \<open>Merge\<close> with no input channel returns \<open>nil\<close>, and \<open>Merge\<close> with the single
  input channel \<open>c\<close> returns \<open>c\<close> itself; in both cases it returns before it makes a channel
  (the allocator is as it was) and before it starts a relay or the closing task. With two
  or more inputs it returns a channel of its own and starts the tasks (lemma
  \<open>Merge_two_or_more\<close>).
\<close>

theorem Merge_identity_cases:
  "Merge ctx [] h = ((None, None), h) \<and> Merge ctx [c] h = ((Some c, None), h)"
  by (simp add: Merge_def)

section \<open>The one-shot guard of Exec and ExecWithDefer\<close>

lemma Generate_Exec_Nil:
  "Generate (Exec_next fn) (False, w) [] = ([], Waiting, (False, snd (fn w)))"
  by (simp add: Exec_next_def split: prod.splits)

lemma Generate_Exec_Comm:
  "Generate (Exec_next fn) (False, w) (Comm # cs) =
     (case Generate (Exec_next fn) (False, snd (fn w)) cs of
        (out, e, s) \<Rightarrow> (\<lparr>Val = fst (fst (fn w)), Err = snd (fst (fn w))\<rparr> # out, e, s))"
  by (simp add: Exec_next_def split: prod.splits)

lemma funpow_Suc_arg: "(f ^^ Suc n) w = (f ^^ n) (f w)"
  by (simp add: funpow_swap1)

lemma map_upt_shift: "map f [0..<Suc k] = f 0 # map (\<lambda>i. f (Suc i)) [0..<k]"
  by (simp add: map_upt_Suc del: upt_Suc)

lemma Generate_Exec_next:
  "Generate (Exec_next fn) (False, w) (replicate k Comm)
     = (map (\<lambda>i. \<lparr>Val = fst (fst (fn (((\<lambda>w. snd (fn w)) ^^ i) w))),
                    Err = snd (fst (fn (((\<lambda>w. snd (fn w)) ^^ i) w)))\<rparr>) [0..<k],
        Waiting, (False, ((\<lambda>w. snd (fn w)) ^^ Suc k) w))"
proof (induction k arbitrary: w)
  case 0
  show ?case by (simp add: Generate_Exec_Nil del: Generate.simps)
next
  case (Suc k)
  show ?case
    using Suc [of "snd (fn w)"]
    by (simp add: Generate_Exec_Comm map_upt_shift funpow_Suc_arg
        del: upt_Suc funpow.simps Generate.simps)
qed

lemma Generate_ExecWithDefer_Nil:
  "Generate (ExecWithDefer_next fn) (False, w, hs) [] =
     ([], Waiting, (False, snd (fn w),
        hs @ [case fst (fst (fn w)) of Some g \<Rightarrow> g | None \<Rightarrow> EmptyFunc]))"
  by (simp add: ExecWithDefer_next_def split: prod.splits)

lemma Generate_ExecWithDefer_Comm:
  "Generate (ExecWithDefer_next fn) (False, w, hs) (Comm # cs) =
     (case Generate (ExecWithDefer_next fn)
             (False, snd (fn w), hs @ [case fst (fst (fn w)) of Some g \<Rightarrow> g | None \<Rightarrow> EmptyFunc]) cs of
        (out, e, s) \<Rightarrow>
          (\<lparr>Val = fst (snd (fst (fn w))), Err = snd (snd (fst (fn w)))\<rparr> # out, e, s))"
  by (simp add: ExecWithDefer_next_def split: prod.splits)

lemma Generate_ExecWithDefer_next:
  "\<exists>out hs'. Generate (ExecWithDefer_next fn) (False, w, hs) (replicate k Comm)
     = (out, Waiting, (False, ((\<lambda>w. snd (fn w)) ^^ Suc k) w, hs'))
     \<and> length out = k \<and> length hs' = length hs + Suc k"
proof (induction k arbitrary: w hs)
  case 0
  show ?case by (simp add: Generate_ExecWithDefer_Nil del: Generate.simps)
next
  case (Suc k)
  from Suc [of "snd (fn w)" "hs @ [case fst (fst (fn w)) of Some g \<Rightarrow> g | None \<Rightarrow> EmptyFunc]"]
  show ?case
    by (auto simp: Generate_ExecWithDefer_Comm funpow_Suc_arg simp del: funpow.simps Generate.simps)
qed

text \<open>
  Claim C1 fails on the code. Nothing sets \<open>executed\<close>, so the guard is open at every step
  of the generator: after \<open>k\<close> delivered results the task has called the wrapped function
  \<open>k + 1\<close> times and waits to deliver the next result, for \<open>Exec\<close> and for
  \<open>ExecWithDefer\<close>, which has also started \<open>k + 1\<close> goroutines that send on the one cleanup
  channel. With the counting function, one awaited result leaves the counter at 2.
\<close>

theorem Exec_guard_never_trips:
  "snd (snd (Generate (Exec_next fn) (False, w) (replicate k Comm)))
      = (False, ((\<lambda>w. snd (fn w)) ^^ Suc k) w)
   \<and> fst (snd (snd (snd (Generate (ExecWithDefer_next dfn) (False, w, []) (replicate k Comm)))))
      = ((\<lambda>w. snd (dfn w)) ^^ Suc k) w
   \<and> length (snd (snd (snd (snd (Generate (ExecWithDefer_next dfn) (False, w, []) (replicate k Comm))))))
      = Suc k
   \<and> snd (snd (Generate (Exec_next counting_fn) (False, 0) [Comm])) = (False, 2)
   \<and> fst (snd (snd (snd (Generate (ExecWithDefer_next counting_defer_fn) (False, 0, []) [Comm])))) = 2"
proof -
  obtain out hs' where "Generate (ExecWithDefer_next dfn) (False, w, []) (replicate k Comm)
     = (out, Waiting, (False, ((\<lambda>w. snd (dfn w)) ^^ Suc k) w, hs'))" "length hs' = Suc k"
    using Generate_ExecWithDefer_next [of dfn w "[]" k] by auto
  moreover have "snd (snd (Generate (Exec_next counting_fn) (False, 0) [Comm])) = (False, 2)"
    by (simp add: Generate_Exec_Comm Generate_Exec_Nil counting_fn_def del: Generate.simps)
  moreover have "fst (snd (snd (snd (Generate (ExecWithDefer_next counting_defer_fn)
      (False, 0, []) [Comm])))) = 2"
    by (simp add: Generate_ExecWithDefer_Comm Generate_ExecWithDefer_Nil counting_defer_fn_def
        del: Generate.simps)
  ultimately show ?thesis
    by (simp add: Generate_Exec_next del: Generate.simps funpow.simps)
qed

section \<open>The task of a future and the stepping closures\<close>

text \<open>
  One round of the task of a future made from a function of the caller is one call of
  the stepping closure of \<open>Exec\<close>, or of \<open>ExecWithDefer\<close> together with the start of the
  handoff goroutine it lists.
\<close>

lemma gen_step_Exec_next:
  assumes "result_chans st c = Some \<lparr>gen = ExecGen (UserFn fn), executed = ex, status = AtLoopHead\<rparr>"
    and "\<not> ctx_Done (token st)"
  shows "gen_step await c st =
           (case Exec_next fn (ex, world st) of
              ((r, ok), (_, w')) \<Rightarrow>
                (Inr (), if ok then set_status c (Offering r) (st\<lparr>world := w'\<rparr>)
                         else set_status c GenClosed st))"
  using assms
  by (simp add: gen_step_def Exec_next_def call_exec_fn_def offer_def set_status_def
      split: prod.splits)

lemma gen_step_ExecWithDefer_next:
  assumes "result_chans st c =
      Some \<lparr>gen = ExecWithDeferGen (UserDeferFn fn) dfn, executed = ex, status = AtLoopHead\<rparr>"
    and "\<not> ctx_Done (token st)"
  shows "gen_step await c st =
           (case ExecWithDefer_next fn (ex, world st, []) of
              ((r, ok), (_, w', hs)) \<Rightarrow>
                (Inr (), case hs of
                           [] \<Rightarrow> set_status c GenClosed st
                         | h # _ \<Rightarrow> set_status c (Offering r)
                                     (spawn_handoff dfn (Some h) (st\<lparr>world := w'\<rparr>))))"
  using assms
  by (auto simp: gen_step_def ExecWithDefer_next_def call_defer_fn_def offer_def set_status_def
      spawn_handoff_def Let_def
      split: prod.splits option.splits)

section \<open>Then and ThenWithDefer\<close>

lemma futures_set_status [simp]: "futures (set_status c s st) = futures st"
  by (simp add: set_status_def split: option.splits)

lemma futures_offer [simp]: "futures (offer c r st) = futures st"
  by (simp add: offer_def)

lemma futures_spawn_handoff [simp]: "futures (spawn_handoff c d st) = futures st"
  by (simp add: spawn_handoff_def Let_def split: option.splits)

lemma futures_take_sender: "take_sender c st = Some (f, st') \<Longrightarrow> futures st' = futures st"
  by (auto simp: take_sender_def split: option.splits list.splits if_splits prod.splits)

lemma futures_call_exec_fn:
  "\<forall>f st. futures (snd (await f st)) = futures st \<Longrightarrow> futures (snd (call_exec_fn await fn st)) = futures st"
  unfolding call_exec_fn_def
  by (auto split: exec_fn.splits prod.splits sum.splits option.splits)
    (metis snd_conv)+


lemma futures_call_defer_fn:
  "\<forall>f st. futures (snd (await f st)) = futures st \<Longrightarrow> futures (snd (call_defer_fn await fn st)) = futures st"
  unfolding call_defer_fn_def
  by (auto split: defer_fn.splits prod.splits sum.splits option.splits)
    (metis snd_conv)+

lemma futures_gen_step:
  assumes "\<forall>f st. futures (snd (await f st)) = futures st"
  shows "futures (snd (gen_step await c st)) = futures st"
proof -
  have e: "futures st1 = futures st" if "call_exec_fn await fn st = (r, st1)" for fn r st1
    using futures_call_exec_fn [OF assms, of fn st] that by simp
  have d: "futures st1 = futures st" if "call_defer_fn await fn st = (r, st1)" for fn r st1
    using futures_call_defer_fn [OF assms, of fn st] that by simp
  show ?thesis
    unfolding gen_step_def
    by (auto split: option.splits gen_status.splits gen_fn.splits prod.splits sum.splits
        dest: e d)
qed

lemma futures_take_result: "futures (snd (take_result c st)) = futures st"
  by (simp add: take_result_def split: option.splits gen_status.splits)

lemma futures_recv_result:
  assumes "\<forall>f st. futures (snd (await f st)) = futures st"
  shows "futures (snd (recv_result await c st)) = futures st"
proof -
  have g: "futures st1 = futures st" if "gen_step await c st = (r, st1)" for r st1
    using futures_gen_step [OF assms, of c st] that by simp
  show ?thesis
    unfolding recv_result_def
    by (auto split: prod.splits sum.splits simp: futures_take_result dest: g)
qed

lemma futures_recv_func:
  assumes "\<forall>f st. futures (snd (await f st)) = futures st"
  shows "futures (snd (recv_func await c st)) = futures st"
proof -
  have g: "futures st1 = futures st" if "gen_step await c' st = (r, st1)" for r st1 c'
    using futures_gen_step [OF assms, of c' st] that by simp
  show ?thesis
    unfolding recv_func_def
    by (auto split: option.splits prod.splits sum.splits dest!: g futures_take_sender)
qed

lemma ThenCleanup_never_returns:
  "call_func n await (Some (ThenCleanup dch)) st = (Inl OutOfFuel, st)"
  by (induction n) simp_all

lemma futures_call_func:
  "futures (snd (call_func n await fn st)) = futures st"
  by (cases "(n, await, fn, st)" rule: call_func.cases)
    (simp_all add: ThenCleanup_never_returns del: call_func.simps(5))

lemma futures_Await_select:
  "\<forall>f st. futures (snd (await f st)) = futures st \<Longrightarrow> futures (snd (Await_select await fut st)) = futures st"
  by (simp add: Await_select_def futures_recv_result)

lemma futures_Await_deferred:
  assumes "\<forall>f st. futures (snd (await f st)) = futures st"
  shows "futures (snd (Await_deferred n await f st)) = futures st"
proof -
  have g: "futures st1 = futures st0" if "recv_func await c st0 = (x, st1)" for c st0 x st1
    using futures_recv_func [OF assms, of c st0] that by simp
  have k: "futures (snd (call_func n await fn st0)) = futures st0" for fn st0
    using futures_call_func [of n await fn st0] by simp
  show ?thesis
    unfolding Await_deferred_def
    by (auto split: option.splits prod.splits sum.splits simp: k dest!: g)
qed

lemma futures_Await_body:
  assumes "\<forall>f st. futures (snd (await f st)) = futures st"
  shows "futures (snd (Await_body n await f st)) = futures st"
proof -
  have r: "futures st1 = futures st0" if "Await_select await fut st0 = (x, st1)" for fut st0 x st1
    using futures_Await_select [OF assms, of fut st0] that by simp
  have k: "futures st1 = futures st0" if "Await_deferred n await f st0 = (x, st1)" for st0 x st1
    using futures_Await_deferred [OF assms, of n f st0] that by simp
  show ?thesis
    unfolding Await_body_def
    by (auto split: option.splits prod.splits sum.splits dest!: r k)
qed

lemma keeps_futures_Await: "\<forall>f st. futures (snd (Await n f st)) = futures st"
proof (induction n)
  case 0
  show ?case by simp
next
  case (Suc n)
  from futures_Await_body [OF Suc, of n] show ?case
    by simp
qed


lemma Await_without_deferFn:
  assumes "futures st f = Some fut" "deferFn fut = None"
  shows "Await (Suc n) f st =
           (case Await_select (Await n) fut st of
              (Inl s, st1) \<Rightarrow> (Inl s, st1)
            | (Inr r, st1) \<Rightarrow> (Inr (Val r, Err r), st1))"
proof -
  have "Await_deferred n (Await n) f st1 = (Inr (), st1)"
    if "Await_select (Await n) fut st = (x, st1)" for x st1
  proof -
    from futures_Await_select [OF keeps_futures_Await, of n fut st] that
    have "futures st1 = futures st" by simp
    with assms show ?thesis by (simp add: Await_deferred_def)
  qed
  with assms(1) show ?thesis
    by (auto simp: Await_body_def split: prod.splits sum.splits)
qed

lemma Then_frame:
  assumes "futures st first = Some fut" "first < future_count st"
  shows "\<exists>st'. Then first next st = (Inr (future_count st), st')
           \<and> futures st' = (futures st)
                 (first \<mapsto> fut\<lparr>deferFn := None\<rparr>,
                  future_count st \<mapsto> \<lparr>deferFn = deferFn fut, result = chan_count st\<rparr>)"
  using assms
  by (auto simp: Then_def Exec_def set_deferFn_def make_chan_def Let_def)

lemma ThenWithDefer_frame:
  assumes "futures st first = Some fut" "first < future_count st"
  shows "\<exists>st'. ThenWithDefer first next st = (Inr (future_count st), st')
           \<and> futures st' = (futures st)
                 (first \<mapsto> fut\<lparr>deferFn := None\<rparr>,
                  future_count st \<mapsto>
                    \<lparr>deferFn = (if deferFn fut \<noteq> None then deferFn fut else Some (chan_count st)),
                     result = Suc (chan_count st)\<rparr>)"
  using assms
  by (auto simp: ThenWithDefer_def ExecWithDefer_def set_deferFn_def make_chan_def Let_def)

lemma Await_after_composition:
  assumes "futures st' first = Some (fut\<lparr>deferFn := None\<rparr>)"
  shows "Await_deferred n (Await n) first st' = (Inr (), st')
         \<and> Await (Suc n) first st' =
               (case Await_select (Await n) (fut\<lparr>deferFn := None\<rparr>) st' of
                  (Inl s, st1) \<Rightarrow> (Inl s, st1)
                | (Inr r, st1) \<Rightarrow> (Inr (Val r, Err r), st1))"
  using Await_without_deferFn [OF assms, of n] assms
  by (simp add: Await_deferred_def)

text \<open>
  Claim C10. Let \<open>first\<close> be a future of the store. \<open>Then\<close> and \<open>ThenWithDefer\<close> return a new
  future and change the store in two places only: \<open>first\<close> has its \<open>deferFn\<close> set to \<open>nil\<close>
  and keeps its \<open>result\<close>, and the new future is added; the new future holds the cleanup
  channel that \<open>first\<close> had (for \<open>ThenWithDefer\<close>, the channel made by \<open>ExecWithDefer\<close> when
  \<open>first\<close> had none). Afterwards the deferred function of \<open>Await\<close> on \<open>first\<close> does
  nothing, and \<open>Await\<close> on \<open>first\<close> is its \<open>select\<close> alone: it neither receives nor calls
  a cleanup.
\<close>

theorem Then_moves_cleanup:
  assumes "futures st first = Some fut" "first < future_count st"
  shows "(\<exists>st'. Then first next st = (Inr (future_count st), st')
           \<and> futures st' = (futures st)
                 (first \<mapsto> fut\<lparr>deferFn := None\<rparr>,
                  future_count st \<mapsto> \<lparr>deferFn = deferFn fut, result = chan_count st\<rparr>)
           \<and> Await_deferred n (Await n) first st' = (Inr (), st')
           \<and> Await (Suc n) first st' =
               (case Await_select (Await n) (fut\<lparr>deferFn := None\<rparr>) st' of
                  (Inl s, st1) \<Rightarrow> (Inl s, st1)
                | (Inr r, st1) \<Rightarrow> (Inr (Val r, Err r), st1)))
       \<and> (\<exists>st'. ThenWithDefer first dnext st = (Inr (future_count st), st')
           \<and> futures st' = (futures st)
                 (first \<mapsto> fut\<lparr>deferFn := None\<rparr>,
                  future_count st \<mapsto>
                    \<lparr>deferFn = (if deferFn fut \<noteq> None then deferFn fut else Some (chan_count st)),
                     result = Suc (chan_count st)\<rparr>)
           \<and> Await_deferred n (Await n) first st' = (Inr (), st')
           \<and> Await (Suc n) first st' =
               (case Await_select (Await n) (fut\<lparr>deferFn := None\<rparr>) st' of
                  (Inl s, st1) \<Rightarrow> (Inl s, st1)
                | (Inr r, st1) \<Rightarrow> (Inr (Val r, Err r), st1)))"
proof (rule conjI)
  from assms(2) have ne: "first \<noteq> future_count st" by simp
  from Then_frame [OF assms, of "next"] obtain st1 where
    t: "Then first next st = (Inr (future_count st), st1)"
      "futures st1 = (futures st)
         (first \<mapsto> fut\<lparr>deferFn := None\<rparr>,
          future_count st \<mapsto> \<lparr>deferFn = deferFn fut, result = chan_count st\<rparr>)"
    by blast
  from t(2) ne have "futures st1 first = Some (fut\<lparr>deferFn := None\<rparr>)" by simp
  from t Await_after_composition [OF this, of n]
  show "\<exists>st'. Then first next st = (Inr (future_count st), st')
           \<and> futures st' = (futures st)
                 (first \<mapsto> fut\<lparr>deferFn := None\<rparr>,
                  future_count st \<mapsto> \<lparr>deferFn = deferFn fut, result = chan_count st\<rparr>)
           \<and> Await_deferred n (Await n) first st' = (Inr (), st')
           \<and> Await (Suc n) first st' =
               (case Await_select (Await n) (fut\<lparr>deferFn := None\<rparr>) st' of
                  (Inl s, st1) \<Rightarrow> (Inl s, st1)
                | (Inr r, st1) \<Rightarrow> (Inr (Val r, Err r), st1))"
    by blast
  from ThenWithDefer_frame [OF assms, of dnext] obtain st2 where
    d: "ThenWithDefer first dnext st = (Inr (future_count st), st2)"
      "futures st2 = (futures st)
         (first \<mapsto> fut\<lparr>deferFn := None\<rparr>,
          future_count st \<mapsto>
            \<lparr>deferFn = (if deferFn fut \<noteq> None then deferFn fut else Some (chan_count st)),
             result = Suc (chan_count st)\<rparr>)"
    by blast
  from d(2) ne have "futures st2 first = Some (fut\<lparr>deferFn := None\<rparr>)" by simp
  from d Await_after_composition [OF this, of n]
  show "\<exists>st'. ThenWithDefer first dnext st = (Inr (future_count st), st')
           \<and> futures st' = (futures st)
                 (first \<mapsto> fut\<lparr>deferFn := None\<rparr>,
                  future_count st \<mapsto>
                    \<lparr>deferFn = (if deferFn fut \<noteq> None then deferFn fut else Some (chan_count st)),
                     result = Suc (chan_count st)\<rparr>)
           \<and> Await_deferred n (Await n) first st' = (Inr (), st')
           \<and> Await (Suc n) first st' =
               (case Await_select (Await n) (fut\<lparr>deferFn := None\<rparr>) st' of
                  (Inl s, st1) \<Rightarrow> (Inl s, st1)
                | (Inr r, st1) \<Rightarrow> (Inr (Val r, Err r), st1))"
    by blast
qed

theorem Then_moves_cleanup_witness:
  "futures deferred_first 0 = Some \<lparr>deferFn = Some 0, result = 1\<rparr>
   \<and> 0 < future_count deferred_first
   \<and> (\<exists>st'. Then 0 plain_next_fn deferred_first = (Inr 1, st')
         \<and> futures st' 0 = Some \<lparr>deferFn = None, result = 1\<rparr>
         \<and> futures st' 1 = Some \<lparr>deferFn = Some 0, result = 2\<rparr>
         \<and> Await_deferred 3 (Await 3) 0 st' = (Inr (), st'))
   \<and> (\<exists>st'. ThenWithDefer 0 next_fn deferred_first = (Inr 1, st')
         \<and> futures st' 0 = Some \<lparr>deferFn = None, result = 1\<rparr>
         \<and> futures st' 1 = Some \<lparr>deferFn = Some 0, result = 3\<rparr>
         \<and> Await_deferred 3 (Await 3) 0 st' = (Inr (), st'))"
proof -
  have f: "futures deferred_first 0 = Some \<lparr>deferFn = Some 0, result = 1\<rparr>"
    and c: "0 < future_count deferred_first"
    and n: "future_count deferred_first = 1" "chan_count deferred_first = 2"
    by (simp_all add: deferred_first_def ExecWithDefer_def make_chan_def init_runtime_def)
  from Then_moves_cleanup [OF f c, of plain_next_fn 3 next_fn] f c n show ?thesis
    by (auto simp: fun_upd_def)
qed

section \<open>Deferred cleanups at work\<close>

lemmas runtime_defs =
  Await_body_def Await_select_def Await_deferred_def recv_result_def recv_func_def
  take_result_def gen_step_def call_exec_fn_def call_defer_fn_def take_sender_def
  close_func_chan_def spawn_handoff_def offer_def set_status_def set_deferFn_def
  ExecWithDefer_def Exec_def Then_def ThenWithDefer_def make_chan_def init_runtime_def
  background_def first_fn_def next_fn_def plain_next_fn_def deferred_first_def Let_def

text \<open>
  The generator behind a result channel goes on after a delivery: \<open>Await\<close> on a future of
  \<open>Exec\<close> returns when the wrapped function has run once, and the next round of the
  generator, for which nothing waits, runs it a second time.
\<close>

lemma Exec_generator_goes_on:
  "(case Exec (UserFn counting_fn) (init_runtime background 0) of
      (f, st) \<Rightarrow>
        (case Await (Suc (Suc k)) f st of
           (r, st1) \<Rightarrow> (r, world st1, world (snd (gen_step (Await k) 0 st1)))))
   = (Inr (5, None), 1, 2)"
  by (simp add: runtime_defs counting_fn_def)

text \<open>
  Whatever the two wrapped functions are: when the first succeeds with the cleanup \<open>g1\<close>
  and \<open>next\<close> returns the cleanup \<open>g2\<close>, awaiting the future composed by \<open>ThenWithDefer\<close>
  applies \<open>g1\<close> to the world that \<open>next\<close> has left, and \<open>g2\<close> to nothing.
\<close>

lemma ThenWithDefer_runs_first_cleanup_only:
  assumes "fn1 w0 = ((Some (UserFunc g1), v1, None), w1)"
    and "nx v1 w1 = ((Some (UserFunc g2), v2, e2), w2)"
  shows "(case ExecWithDefer (UserDeferFn fn1) (init_runtime background w0) of
            (first, st1) \<Rightarrow>
              (case ThenWithDefer first nx st1 of
                 (Inl s, st2) \<Rightarrow> None
               | (Inr composed, st2) \<Rightarrow>
                   (case Await (Suc (Suc k)) composed st2 of
                      (r, st3) \<Rightarrow> Some (r, world st3))))
         = Some (Inr (v2, e2), g1 w2)"
  using assms by (simp add: runtime_defs)

text \<open>
  Claim C2 fails on the code. \<open>first\<close> is a deferred future whose cleanup logs
  ``first cleanup''; \<open>next\<close> returns a cleanup that logs ``next cleanup''. \<open>ThenWithDefer\<close>
  overwrites the \<open>deferFn\<close> of the future it has just built with the channel of \<open>first\<close>, so
  \<open>Await\<close> on the composed future receives and runs the cleanup of \<open>first\<close>. The closure
  that the body returns in place of the cleanup of \<open>next\<close> is sent on the channel that
  \<open>ExecWithDefer\<close> made, from which nobody receives: one handoff goroutine stays blocked
  there, and ``next cleanup'' is never logged. (Were that closure called, it would call
  itself without end, lemma \<open>ThenCleanup_never_returns\<close>.) This holds for every depth
  bound from 2 on.
\<close>

theorem ThenWithDefer_drops_next_cleanup:
  "then_with_defer_run (Suc (Suc k))
     = Some (Inr (10, None), [''first fn'', ''next fn'', ''first cleanup''], Some 1)"
  by (simp add: then_with_defer_run_def runtime_defs)

text \<open>
  Claim C9 fails on the code, by the defect of claim C1: a generator whose guard never
  trips runs the body again after the first result is taken, and starts a second handoff
  goroutine on the same cleanup channel. When the first goroutine closes the channel
  promptly, the second one panics in its send, and the second \<open>Await\<close> calls the \<open>nil\<close> it
  receives from the closed channel. When the first goroutine is slow to run its deferred
  \<open>close\<close>, the channel carries a second function: the second \<open>Await\<close> receives it, runs
  the cleanup a second time and returns normally.
\<close>

theorem Await_twice_on_deferred_future:
  "await_twice_run True (Suc (Suc k))
     = (Inr (5, None), Inl (Panicked ''call of nil func''),
        [''first fn'', ''first cleanup'', ''first fn''], [''send on closed channel''])
   \<and> await_twice_run False (Suc (Suc k))
     = (Inr (5, None), Inr (5, None),
        [''first fn'', ''first cleanup'', ''first fn'', ''first cleanup''], [])"
  by (simp add: await_twice_run_def runtime_defs)

end
